theory Spec2Isabelle
  imports Complex_Main "HOL-Library.AList" "HOL-Library.Multiset"
begin

section \<open>Record linkage (Fellegi-Sunter) in \<^verbatim>\<open>record_linkage.py\<close>\<close>

text \<open>
  The development embeds the functions \<^verbatim>\<open>tuple_probs\<close>, \<^verbatim>\<open>rank_tuples\<close>,
  \<^verbatim>\<open>sort_by_cum_pr\<close>, \<^verbatim>\<open>create_sets\<close> and the classification loop of
  \<^verbatim>\<open>find_matches\<close>.

  Conventions of the embedding:
  \<^item> a Python \<^verbatim>\<open>dict\<close> is an association list in insertion order (\<^verbatim>\<open>items()\<close>
    iterates in that order); a dict has no duplicate keys, which is the predicate
    \<open>distinct (map fst d)\<close> wherever a theorem needs it;
  \<^item> a Python \<^verbatim>\<open>set\<close> is a HOL set; a Python \<^verbatim>\<open>list\<close> is a HOL list;
  \<^item> a Python \<^verbatim>\<open>float\<close> is the real number it denotes; comparisons and tests against
    zero are exact, and every addition and division returns the exact result rounded to
    a float by \<open>fl\<close> (see below); the theorems hold for all real-valued tables and
    bounds, the tables and bounds of floats among them;
  \<^item> an exception is a value \<open>Inl e\<close> of a sum type; where a function also mutates an
    argument, the mutated argument is returned next to the result;
  \<^item> functions that the file imports (\<^verbatim>\<open>jellyfish.jaro_winkler\<close>,
    \<^verbatim>\<open>util.get_jw_category\<close>, \<^verbatim>\<open>numpy.argsort\<close>) are parameters of the
    functions that call them; the categoriser returns one of the three categories;
  \<^item> reading the CSV files, sampling, printing and the assembly of the output frames
    (\<^verbatim>\<open>make_final_dfs\<close>) are outside the model: a frame is the list of its rows.
\<close>

subsection \<open>Data model\<close>

text \<open>The three strings \<^verbatim>\<open>"low"\<close>, \<^verbatim>\<open>"medium"\<close>, \<^verbatim>\<open>"high"\<close> of the code.\<close>

datatype category = Low | Medium | High

type_synonym pattern = "category \<times> category \<times> category"

text \<open>
  The exceptions. The first three are the built-in exceptions the code can raise;
  \<open>ConfigurationError\<close> and \<open>InternalError\<close> are the names the specification uses. No
  function of the program raises either of them.
\<close>

datatype error = ZeroDivisionError | KeyError | IndexError | ConfigurationError | InternalError

text \<open>\<^verbatim>\<open>d[k]\<close> on a dict: the value, or \<^verbatim>\<open>KeyError\<close>.\<close>

definition getitem :: "('k \<times> 'v) list \<Rightarrow> 'k \<Rightarrow> error + 'v" where
  "getitem d k = (case map_of d k of None \<Rightarrow> Inl KeyError | Some v \<Rightarrow> Inr v)"

text \<open>A row of the training frames \<^verbatim>\<open>matches\<close> and \<^verbatim>\<open>unmatches\<close> (six string columns).\<close>

record pair_row =
  rest_z :: string
  city_z :: string
  address_z :: string
  rest_f :: string
  city_f :: string
  address_f :: string

text \<open>A row of \<^verbatim>\<open>zagat\<close> or \<^verbatim>\<open>fodors\<close>: the index label and three string columns.\<close>

record row =
  idx :: int
  rest :: string
  city :: string
  address :: string

subsection \<open>Floating-point arithmetic\<close>

text \<open>
  Python floats are IEEE 754 binary64 numbers, and each arithmetic operation returns the
  exact result rounded to the nearest float, ties to the float with the even significand.
  \<open>round_even\<close> rounds a real to the nearest integer, ties to even; \<open>fl\<close> rounds a
  real to 53 significant bits: with \<open>2 ^ e \<le> \<bar>x\<bar> < 2 ^ (e + 1)\<close> the floats around \<open>x\<close>
  are the multiples of \<open>2 ^ (e - 52)\<close>. The exponent is not bounded in the model:
  overflow to infinity, gradual underflow and NaN are outside it.
\<close>

definition round_even :: "real \<Rightarrow> int" where
  "round_even y =
     (let n = \<lfloor>y\<rfloor>; r = y - of_int n
      in if r < 1 / 2 then n else if 1 / 2 < r then n + 1 else if even n then n else n + 1)"

definition fl :: "real \<Rightarrow> real" where
  "fl x =
     (if x = 0 then 0
      else (let e = \<lfloor>log 2 \<bar>x\<bar>\<rfloor>; ulp = 2 powi (e - 52)
            in of_int (round_even (x / ulp)) * ulp))"

subsection \<open>\<^verbatim>\<open>tuple_probs\<close>\<close>

definition categories :: "category list" where
  "categories = [Low, Medium, High]"

text \<open>The triple loop that initialises \<^verbatim>\<open>counts\<close>; its keys are the full pattern domain.\<close>

definition init_counts :: "(pattern \<times> nat) list" where
  "init_counts =
     concat (map (\<lambda>cat_1. concat (map (\<lambda>cat_2. map (\<lambda>cat_3. ((cat_1, cat_2, cat_3), 0))
       categories) categories)) categories)"

definition pattern_domain :: "pattern list" where
  "pattern_domain = map fst init_counts"

text \<open>The loop over \<^verbatim>\<open>df.iterrows()\<close>: \<^verbatim>\<open>counts[tup] += 1\<close>.\<close>

fun count_rows :: "(string \<Rightarrow> string \<Rightarrow> real) \<Rightarrow> (real \<Rightarrow> category) \<Rightarrow> pair_row list \<Rightarrow>
    (pattern \<times> nat) list \<Rightarrow> error + (pattern \<times> nat) list" where
  "count_rows jaro_winkler get_jw_category [] counts = Inr counts"
| "count_rows jaro_winkler get_jw_category (r # rows) counts =
     (let score_r = jaro_winkler (rest_f r) (rest_z r);
          score_c = jaro_winkler (city_f r) (city_z r);
          score_a = jaro_winkler (address_f r) (address_z r);
          cat_r = get_jw_category score_r;
          cat_c = get_jw_category score_c;
          cat_a = get_jw_category score_a;
          tup = (cat_r, cat_c, cat_a)
      in case getitem counts tup of
           Inl e \<Rightarrow> Inl e
         | Inr c \<Rightarrow> count_rows jaro_winkler get_jw_category rows (AList.update tup (c + 1) counts))"

text \<open>
  The loop \<^verbatim>\<open>for t, count in counts.items(): freqs[t] = count / sum(counts.values())\<close>.
  Dividing by a zero sum raises \<^verbatim>\<open>ZeroDivisionError\<close>; otherwise the quotient of
  the two integers is the correctly rounded float.
\<close>

fun normalise :: "(pattern \<times> nat) list \<Rightarrow> (pattern \<times> nat) list \<Rightarrow> (pattern \<times> real) list \<Rightarrow>
    error + (pattern \<times> real) list" where
  "normalise counts [] freqs = Inr freqs"
| "normalise counts ((t, cnt) # items) freqs =
     (let total = sum_list (map snd counts)
      in if total = 0 then Inl ZeroDivisionError
         else normalise counts items (AList.update t (fl (real cnt / real total)) freqs))"

text \<open>
  \<^verbatim>\<open>freqs = counts.copy()\<close> starts from the integer counts; every entry is then
  overwritten by a float.
\<close>

definition tuple_probs :: "(string \<Rightarrow> string \<Rightarrow> real) \<Rightarrow> (real \<Rightarrow> category) \<Rightarrow> pair_row list \<Rightarrow>
    error + (pattern \<times> real) list" where
  "tuple_probs jaro_winkler get_jw_category df =
     (case count_rows jaro_winkler get_jw_category df init_counts of
        Inl e \<Rightarrow> Inl e
      | Inr counts \<Rightarrow> normalise counts counts (map (\<lambda>(t, c). (t, real c)) counts))"

subsection \<open>\<^verbatim>\<open>rank_tuples\<close>\<close>

text \<open>
  \<^verbatim>\<open>numpy.argsort\<close> returns the indices that sort its argument in ascending order.
  Its default sorting kind promises nothing about the order of equal elements.
\<close>

definition is_argsort :: "(real list \<Rightarrow> nat list) \<Rightarrow> bool" where
  "is_argsort argsort \<longleftrightarrow>
     (\<forall>xs. mset (argsort xs) = mset [0..<length xs] \<and> sorted (map (\<lambda>i. xs ! i) (argsort xs)))"

text \<open>
  One such function: the stable one, which is what numpy computes on short arrays (it
  sorts fewer than 17 elements by insertion).
\<close>

definition stable_argsort :: "real list \<Rightarrow> nat list" where
  "stable_argsort xs = sort_key (\<lambda>i. xs ! i) [0..<length xs]"

text \<open>
  The loop \<^verbatim>\<open>for rank in order: ranked.append(tuples_to_rank[rank])\<close>; an index past
  the end raises \<^verbatim>\<open>IndexError\<close>.
\<close>

fun take_ranks :: "'k list \<Rightarrow> nat list \<Rightarrow> 'k list \<Rightarrow> error + 'k list" where
  "take_ranks tuples_to_rank [] ranked = Inr ranked"
| "take_ranks tuples_to_rank (rank # order) ranked =
     (if rank < length tuples_to_rank
      then take_ranks tuples_to_rank order (ranked @ [tuples_to_rank ! rank])
      else Inl IndexError)"

definition rank_tuples :: "(real list \<Rightarrow> nat list) \<Rightarrow> 'k list \<Rightarrow> 'k list \<Rightarrow> real list \<Rightarrow>
    error + 'k list" where
  "rank_tuples argsort front tuples_to_rank ratios =
     (let order = argsort ratios;
          order = rev order
      in case take_ranks tuples_to_rank order [] of
           Inl e \<Rightarrow> Inl e
         | Inr ranked \<Rightarrow> Inr (front @ ranked))"

subsection \<open>\<^verbatim>\<open>sort_by_cum_pr\<close>\<close>

text \<open>The accumulation loop, with its \<^verbatim>\<open>break\<close>.\<close>

fun cum_loop :: "real \<Rightarrow> ('k \<times> real) list \<Rightarrow> 'k list \<Rightarrow> real \<Rightarrow> 'k set \<Rightarrow> error + 'k set" where
  "cum_loop level freqs [] cumulative_p tuples_set = Inr tuples_set"
| "cum_loop level freqs (t # ts) cumulative_p tuples_set =
     (case getitem freqs t of
        Inl e \<Rightarrow> Inl e
      | Inr p \<Rightarrow>
          (let cumulative_p = fl (cumulative_p + p)
           in if cumulative_p \<le> level
              then cum_loop level freqs ts cumulative_p (insert t tuples_set)
              else Inr tuples_set))"

text \<open>
  The result is the returned set (or the exception) together with the list \<^verbatim>\<open>ranked\<close>
  as the call leaves it: \<^verbatim>\<open>ranked.reverse()\<close> reverses the caller's list in place.
\<close>

definition sort_by_cum_pr :: "real \<Rightarrow> 'k list \<Rightarrow> ('k \<times> real) list \<Rightarrow> bool \<Rightarrow>
    (error + 'k set) \<times> 'k list" where
  "sort_by_cum_pr level ranked freqs left_tail =
     (let ranked = (if \<not> left_tail then rev ranked else ranked)
      in (cum_loop level freqs ranked 0 {}, ranked))"

subsection \<open>\<^verbatim>\<open>create_sets\<close>\<close>

record 'k triage =
  tr_possible :: "'k set"
  tr_ratios :: "real list"
  tr_to_rank :: "'k list"
  tr_front :: "'k list"

definition triage_init :: "'k triage" where
  "triage_init = \<lparr>tr_possible = {}, tr_ratios = [], tr_to_rank = [], tr_front = []\<rparr>"

text \<open>The loop \<^verbatim>\<open>for t, u in freqs_u.items()\<close>.\<close>

fun triage_loop :: "('k \<times> real) list \<Rightarrow> ('k \<times> real) list \<Rightarrow> 'k triage \<Rightarrow> error + 'k triage" where
  "triage_loop freqs_m [] s = Inr s"
| "triage_loop freqs_m ((t, u) # items) s =
     (case getitem freqs_m t of
        Inl e \<Rightarrow> Inl e
      | Inr m \<Rightarrow>
          triage_loop freqs_m items
            (if u = 0
             then (if m = 0
                   then s\<lparr>tr_possible := insert t (tr_possible s)\<rparr>
                   else s\<lparr>tr_front := tr_front s @ [t]\<rparr>)
             else s\<lparr>tr_ratios := tr_ratios s @ [fl (m / u)], tr_to_rank := tr_to_rank s @ [t]\<rparr>))"

text \<open>
  The local variables of \<^verbatim>\<open>create_sets\<close> when it returns: the three returned sets, the
  set \<^verbatim>\<open>unmatch_tuples_full\<close> and the list \<^verbatim>\<open>ranked\<close> in its final state.
\<close>

record 'k locals =
  l_possible :: "'k set"
  l_match :: "'k set"
  l_unmatch :: "'k set"
  l_unmatch_full :: "'k set"
  l_ranked :: "'k list"

definition create_sets_locals :: "(real list \<Rightarrow> nat list) \<Rightarrow> ('k \<times> real) list \<Rightarrow>
    ('k \<times> real) list \<Rightarrow> real \<Rightarrow> real \<Rightarrow> error + 'k locals" where
  "create_sets_locals argsort freqs_m freqs_u mu lmbda =
     (case triage_loop freqs_m freqs_u triage_init of
        Inl e \<Rightarrow> Inl e
      | Inr s \<Rightarrow>
     (case rank_tuples argsort (tr_front s) (tr_to_rank s) (tr_ratios s) of
        Inl e \<Rightarrow> Inl e
      | Inr ranked \<Rightarrow>
     (case sort_by_cum_pr mu ranked freqs_u True of
        (Inl e, ranked) \<Rightarrow> Inl e
      | (Inr match_tuples, ranked) \<Rightarrow>
     (case sort_by_cum_pr lmbda ranked freqs_m False of
        (Inl e, ranked) \<Rightarrow> Inl e
      | (Inr unmatch_tuples_full, ranked) \<Rightarrow>
          (let unmatch_tuples = unmatch_tuples_full - match_tuples;
               ranked_set = set ranked;
               leftover = ranked_set - (match_tuples \<union> unmatch_tuples);
               possible_tuples = tr_possible s \<union> leftover
           in Inr \<lparr>l_possible = possible_tuples, l_match = match_tuples, l_unmatch = unmatch_tuples,
                   l_unmatch_full = unmatch_tuples_full, l_ranked = ranked\<rparr>)))))"

definition create_sets :: "(real list \<Rightarrow> nat list) \<Rightarrow> ('k \<times> real) list \<Rightarrow> ('k \<times> real) list \<Rightarrow>
    real \<Rightarrow> real \<Rightarrow> error + ('k set \<times> 'k set \<times> 'k set)" where
  "create_sets argsort freqs_m freqs_u mu lmbda =
     (case create_sets_locals argsort freqs_m freqs_u mu lmbda of
        Inl e \<Rightarrow> Inl e
      | Inr l \<Rightarrow> Inr (l_possible l, l_match l, l_unmatch l))"

subsection \<open>The classification loop of \<^verbatim>\<open>find_matches\<close>\<close>

record out_lists =
  match_z :: "int list"
  match_f :: "int list"
  unmatch_z :: "int list"
  unmatch_f :: "int list"
  poss_z :: "int list"
  poss_f :: "int list"

definition out_init :: out_lists where
  "out_init = \<lparr>match_z = [], match_f = [], unmatch_z = [], unmatch_f = [],
               poss_z = [], poss_f = []\<rparr>"

text \<open>
  The loop \<^verbatim>\<open>for row_f in fodors_to_iterate.iterrows()\<close>. The sets are passed in the
  order in which \<^verbatim>\<open>create_sets\<close> returns them.
\<close>

fun inner_loop :: "(string \<Rightarrow> string \<Rightarrow> real) \<Rightarrow> (real \<Rightarrow> category) \<Rightarrow>
    pattern set \<times> pattern set \<times> pattern set \<Rightarrow> row \<Rightarrow> row list \<Rightarrow> out_lists \<Rightarrow> out_lists" where
  "inner_loop jaro_winkler get_jw_category sets row_z [] out = out"
| "inner_loop jaro_winkler get_jw_category (possible_tuples, match_tuples, unmatch_tuples) row_z
       (row_f # rows) out =
     (let i_z = idx row_z;
          i_f = idx row_f;
          score_r = jaro_winkler (rest row_z) (rest row_f);
          score_c = jaro_winkler (city row_z) (city row_f);
          score_a = jaro_winkler (address row_z) (address row_f);
          cat_r = get_jw_category score_r;
          cat_c = get_jw_category score_c;
          cat_a = get_jw_category score_a;
          t = (cat_r, cat_c, cat_a)
      in inner_loop jaro_winkler get_jw_category (possible_tuples, match_tuples, unmatch_tuples)
           row_z rows
           (if t \<in> match_tuples
            then out\<lparr>match_z := match_z out @ [i_z], match_f := match_f out @ [i_f]\<rparr>
            else if t \<in> unmatch_tuples
            then out\<lparr>unmatch_z := unmatch_z out @ [i_z], unmatch_f := unmatch_f out @ [i_f]\<rparr>
            else if t \<in> possible_tuples
            then out\<lparr>poss_z := poss_z out @ [i_z], poss_f := poss_f out @ [i_f]\<rparr>
            else out))"

text \<open>The loop \<^verbatim>\<open>for row_z in zagat.iterrows()\<close>, with the optional city filter.\<close>

fun outer_loop :: "(string \<Rightarrow> string \<Rightarrow> real) \<Rightarrow> (real \<Rightarrow> category) \<Rightarrow>
    pattern set \<times> pattern set \<times> pattern set \<Rightarrow> bool \<Rightarrow> row list \<Rightarrow> row list \<Rightarrow> out_lists \<Rightarrow>
    out_lists" where
  "outer_loop jaro_winkler get_jw_category sets block_on_city fodors [] out = out"
| "outer_loop jaro_winkler get_jw_category sets block_on_city fodors (row_z # rows) out =
     (let fodors_to_iterate =
            (if block_on_city then filter (\<lambda>row_f. city row_f = city row_z) fodors else fodors)
      in outer_loop jaro_winkler get_jw_category sets block_on_city fodors rows
           (inner_loop jaro_winkler get_jw_category sets row_z fodors_to_iterate out))"

text \<open>
  \<^verbatim>\<open>find_matches\<close> up to the six index lists. The four frames stand for what the
  function reads and samples in its first lines (\<^verbatim>\<open>zagat\<close>, \<^verbatim>\<open>fodors\<close>,
  \<^verbatim>\<open>matches\<close>, \<^verbatim>\<open>unmatches\<close>).
\<close>

definition find_matches :: "(string \<Rightarrow> string \<Rightarrow> real) \<Rightarrow> (real \<Rightarrow> category) \<Rightarrow>
    (real list \<Rightarrow> nat list) \<Rightarrow> row list \<Rightarrow> row list \<Rightarrow> pair_row list \<Rightarrow> pair_row list \<Rightarrow>
    real \<Rightarrow> real \<Rightarrow> bool \<Rightarrow> error + out_lists" where
  "find_matches jaro_winkler get_jw_category argsort zagat fodors matches unmatches
       mu lmbda block_on_city =
     (case tuple_probs jaro_winkler get_jw_category matches of
        Inl e \<Rightarrow> Inl e
      | Inr freqs_m \<Rightarrow>
     (case tuple_probs jaro_winkler get_jw_category unmatches of
        Inl e \<Rightarrow> Inl e
      | Inr freqs_u \<Rightarrow>
     (case create_sets argsort freqs_m freqs_u mu lmbda of
        Inl e \<Rightarrow> Inl e
      | Inr sets \<Rightarrow>
          Inr (outer_loop jaro_winkler get_jw_category sets block_on_city fodors zagat
                 out_init))))"

section \<open>Notions used to state the properties\<close>

text \<open>The frequency a table records for a pattern (zero where the table has no entry).\<close>

definition freq_of :: "('k \<times> real) list \<Rightarrow> 'k \<Rightarrow> real" where
  "freq_of d k = (case map_of d k of None \<Rightarrow> 0 | Some p \<Rightarrow> p)"

text \<open>A table defined over the full pattern domain: one entry for each of the 27 patterns.\<close>

definition full_table :: "(pattern \<times> real) list \<Rightarrow> bool" where
  "full_table d \<longleftrightarrow> distinct (map fst d) \<and> set (map fst d) = set pattern_domain"

definition nonneg_table :: "('k \<times> real) list \<Rightarrow> bool" where
  "nonneg_table d \<longleftrightarrow> list_all (\<lambda>(t, p). 0 \<le> p) d"

text \<open>
  The prefix of \<open>ts\<close> that the accumulation loop of \<^verbatim>\<open>sort_by_cum_pr\<close> accepts, when it
  starts with the running sum \<open>cp\<close>.
\<close>

fun cut :: "real \<Rightarrow> ('k \<Rightarrow> real) \<Rightarrow> 'k list \<Rightarrow> real \<Rightarrow> 'k list" where
  "cut level f [] cp = []"
| "cut level f (t # ts) cp =
     (if fl (cp + f t) \<le> level then t # cut level f ts (fl (cp + f t)) else [])"

text \<open>
  The sum of a list of floats as a loop \<^verbatim>\<open>s = 0; for x in xs: s += x\<close> computes it,
  rounding after each addition.
\<close>

definition float_sum :: "real list \<Rightarrow> real" where
  "float_sum xs = foldl (\<lambda>s x. fl (s + x)) 0 xs"

text \<open>What the triage loop of \<^verbatim>\<open>create_sets\<close> computes, as list comprehensions.\<close>

definition zero_evidence :: "('k \<times> real) list \<Rightarrow> ('k \<times> real) list \<Rightarrow> 'k set" where
  "zero_evidence fm fu = {t \<in> set (map fst (filter (\<lambda>(t, u). u = 0) fu)). freq_of fm t = 0}"

definition front_of :: "('k \<times> real) list \<Rightarrow> ('k \<times> real) list \<Rightarrow> 'k list" where
  "front_of fm fu = filter (\<lambda>t. freq_of fm t \<noteq> 0) (map fst (filter (\<lambda>(t, u). u = 0) fu))"

definition to_rank_of :: "('k \<times> real) list \<Rightarrow> 'k list" where
  "to_rank_of fu = map fst (filter (\<lambda>(t, u). u \<noteq> 0) fu)"

definition ratios_of :: "('k \<times> real) list \<Rightarrow> ('k \<times> real) list \<Rightarrow> real list" where
  "ratios_of fm fu = map (\<lambda>(t, u). fl (freq_of fm t / u)) (filter (\<lambda>(t, u). u \<noteq> 0) fu)"

definition ranked_of :: "(real list \<Rightarrow> nat list) \<Rightarrow> ('k \<times> real) list \<Rightarrow> ('k \<times> real) list \<Rightarrow>
    'k list" where
  "ranked_of argsort fm fu =
     front_of fm fu @ map (\<lambda>i. to_rank_of fu ! i) (rev (argsort (ratios_of fm fu)))"

text \<open>
  The ranking as the specification words it: the front list, then the patterns to rank
  in descending order of ratio, equal ratios in their original order (\<open>sort_key\<close> is
  stable).
\<close>

definition spec_ranked :: "'k list \<Rightarrow> 'k list \<Rightarrow> real list \<Rightarrow> 'k list" where
  "spec_ranked front tuples_to_rank ratios =
     front @ map fst (sort_key (\<lambda>(t, r). - r) (zip tuples_to_rank ratios))"

text \<open>
  \<^verbatim>\<open>create_sets\<close> as it would be if \<^verbatim>\<open>sort_by_cum_pr\<close> worked on a copy of
  \<^verbatim>\<open>ranked\<close>: both calls and the leftover computation see the list that
  \<^verbatim>\<open>rank_tuples\<close> returned.
\<close>

definition create_sets_on_copies :: "(real list \<Rightarrow> nat list) \<Rightarrow> ('k \<times> real) list \<Rightarrow>
    ('k \<times> real) list \<Rightarrow> real \<Rightarrow> real \<Rightarrow> error + ('k set \<times> 'k set \<times> 'k set)" where
  "create_sets_on_copies argsort freqs_m freqs_u mu lmbda =
     (case triage_loop freqs_m freqs_u triage_init of
        Inl e \<Rightarrow> Inl e
      | Inr s \<Rightarrow>
     (case rank_tuples argsort (tr_front s) (tr_to_rank s) (tr_ratios s) of
        Inl e \<Rightarrow> Inl e
      | Inr ranked \<Rightarrow>
     (case fst (sort_by_cum_pr mu ranked freqs_u True) of
        Inl e \<Rightarrow> Inl e
      | Inr match_tuples \<Rightarrow>
     (case fst (sort_by_cum_pr lmbda ranked freqs_m False) of
        Inl e \<Rightarrow> Inl e
      | Inr unmatch_tuples_full \<Rightarrow>
          (let unmatch_tuples = unmatch_tuples_full - match_tuples;
               ranked_set = set ranked;
               leftover = ranked_set - (match_tuples \<union> unmatch_tuples);
               possible_tuples = tr_possible s \<union> leftover
           in Inr (possible_tuples, match_tuples, unmatch_tuples))))))"

subsection \<open>Classified pairs\<close>

text \<open>The comparison pattern that the loop of \<^verbatim>\<open>find_matches\<close> computes for a pair.\<close>

definition pattern_of :: "(string \<Rightarrow> string \<Rightarrow> real) \<Rightarrow> (real \<Rightarrow> category) \<Rightarrow> row \<Rightarrow> row \<Rightarrow>
    pattern" where
  "pattern_of jaro_winkler get_jw_category row_z row_f =
     (get_jw_category (jaro_winkler (rest row_z) (rest row_f)),
      get_jw_category (jaro_winkler (city row_z) (city row_f)),
      get_jw_category (jaro_winkler (address row_z) (address row_f)))"

text \<open>The branch of the \<^verbatim>\<open>if\<close>/\<^verbatim>\<open>elif\<close> chain that a pattern takes, if any.\<close>

datatype label = Match | Unmatch | Possible

definition label_of :: "pattern set \<times> pattern set \<times> pattern set \<Rightarrow> pattern \<Rightarrow> label option" where
  "label_of sets t =
     (case sets of (possible_tuples, match_tuples, unmatch_tuples) \<Rightarrow>
        if t \<in> match_tuples then Some Match
        else if t \<in> unmatch_tuples then Some Unmatch
        else if t \<in> possible_tuples then Some Possible
        else None)"

definition labelled :: "(string \<Rightarrow> string \<Rightarrow> real) \<Rightarrow> (real \<Rightarrow> category) \<Rightarrow>
    pattern set \<times> pattern set \<times> pattern set \<Rightarrow> label \<Rightarrow> row \<times> row \<Rightarrow> bool" where
  "labelled jw cat sets l =
     (\<lambda>(row_z, row_f). label_of sets (pattern_of jw cat row_z row_f) = Some l)"

text \<open>
  The index pairs of a result: the two lists of a label are filled in step, so the pairs
  are read off position by position.
\<close>

definition match_pairs :: "out_lists \<Rightarrow> (int \<times> int) list" where
  "match_pairs out = zip (match_z out) (match_f out)"

definition unmatch_pairs :: "out_lists \<Rightarrow> (int \<times> int) list" where
  "unmatch_pairs out = zip (unmatch_z out) (unmatch_f out)"

definition poss_pairs :: "out_lists \<Rightarrow> (int \<times> int) list" where
  "poss_pairs out = zip (poss_z out) (poss_f out)"

text \<open>The city of the row with a given index label, and the pairs of indices with equal cities.\<close>

definition city_of :: "row list \<Rightarrow> int \<Rightarrow> string option" where
  "city_of df i = map_of (map (\<lambda>r. (idx r, city r)) df) i"

definition same_city :: "row list \<Rightarrow> row list \<Rightarrow> int \<times> int \<Rightarrow> bool" where
  "same_city zagat fodors = (\<lambda>(i_z, i_f). city_of zagat i_z = city_of fodors i_f)"

text \<open>The pairs that the two nested loops visit, in order.\<close>

definition candidates :: "bool \<Rightarrow> row list \<Rightarrow> row list \<Rightarrow> (row \<times> row) list" where
  "candidates block_on_city zagat fodors =
     concat (map (\<lambda>row_z. map (Pair row_z)
       (if block_on_city then filter (\<lambda>row_f. city row_f = city row_z) fodors else fodors))
       zagat)"

text \<open>The six lists after a sequence of pairs has been classified.\<close>

definition extend :: "(string \<Rightarrow> string \<Rightarrow> real) \<Rightarrow> (real \<Rightarrow> category) \<Rightarrow>
    pattern set \<times> pattern set \<times> pattern set \<Rightarrow> (row \<times> row) list \<Rightarrow> out_lists \<Rightarrow> out_lists" where
  "extend jw cat sets ps out =
     \<lparr>match_z = match_z out @ map (\<lambda>p. idx (fst p)) (filter (labelled jw cat sets Match) ps),
      match_f = match_f out @ map (\<lambda>p. idx (snd p)) (filter (labelled jw cat sets Match) ps),
      unmatch_z =
        unmatch_z out @ map (\<lambda>p. idx (fst p)) (filter (labelled jw cat sets Unmatch) ps),
      unmatch_f =
        unmatch_f out @ map (\<lambda>p. idx (snd p)) (filter (labelled jw cat sets Unmatch) ps),
      poss_z = poss_z out @ map (\<lambda>p. idx (fst p)) (filter (labelled jw cat sets Possible) ps),
      poss_f = poss_f out @ map (\<lambda>p. idx (snd p)) (filter (labelled jw cat sets Possible) ps)\<rparr>"

subsection \<open>Concrete inputs\<close>

text \<open>
  The scenario of the specification: all match frequency on (high, high, high), all
  non-match frequency on (low, low, low).
\<close>

definition scenario_m :: "(pattern \<times> real) list" where
  "scenario_m = map (\<lambda>t. (t, if t = (High, High, High) then 1 else 0)) pattern_domain"

definition scenario_u :: "(pattern \<times> real) list" where
  "scenario_u = map (\<lambda>t. (t, if t = (Low, Low, Low) then 1 else 0)) pattern_domain"

text \<open>
  Two tables of floats that sum to 1 and on which a rounded addition loses a half unit in
  the last place: \<open>1 / 2 ^ 54 + 1 / 2\<close> rounds to \<open>1 / 2\<close>.
\<close>

definition rounding_m :: "(pattern \<times> real) list" where
  "rounding_m =
     map (\<lambda>t. (t, if t = (High, High, High) then 1 / 2
                   else if t = (Medium, Medium, Medium) then 1 / 2 else 0)) pattern_domain"

definition rounding_u :: "(pattern \<times> real) list" where
  "rounding_u =
     map (\<lambda>t. (t, if t = (High, High, High) then 1 / 2 ^ 54
                   else if t = (Medium, Medium, Medium) then 1 / 2
                   else if t = (Low, Low, Low) then 1 / 2 - 1 / 2 ^ 54 else 0)) pattern_domain"

text \<open>The uniform table: every pattern has frequency 1/27.\<close>

definition uniform_table :: "(pattern \<times> real) list" where
  "uniform_table = map (\<lambda>t. (t, 1 / 27)) pattern_domain"

text \<open>
  A similarity function for the examples (\<^verbatim>\<open>jellyfish.jaro_winkler\<close> is a parameter
  of the model): 1 for identical strings, 0 otherwise.
\<close>

definition exact_similarity :: "string \<Rightarrow> string \<Rightarrow> real" where
  "exact_similarity a b = (if a = b then 1 else 0)"

text \<open>
  Modelled from the spec: \<^verbatim>\<open>util.get_jw_category\<close> is not among the sources. The
  specification describes a step function over fixed thresholds in which a score on a
  threshold gets the higher category. The thresholds are configuration; 1/2 and 9/10 are
  the values of the examples.
\<close>

definition example_category :: "real \<Rightarrow> category" where
  "example_category score =
     (if 9 / 10 \<le> score then High else if 1 / 2 \<le> score then Medium else Low)"

text \<open>Two small frames, a training sample and the partition of the scenario.\<close>

definition example_row :: row where
  "example_row = \<lparr>idx = 0, rest = ''chez a'', city = ''paris'', address = ''1 rue b''\<rparr>"

definition example_zagat :: "row list" where
  "example_zagat =
     [example_row, \<lparr>idx = 1, rest = ''da c'', city = ''roma'', address = ''2 via d''\<rparr>]"

definition example_fodors :: "row list" where
  "example_fodors =
     [example_row, \<lparr>idx = 1, rest = ''chez a'', city = ''lyon'', address = ''1 rue b''\<rparr>]"

definition example_sample :: "pair_row list" where
  "example_sample =
     [\<lparr>rest_z = ''chez a'', city_z = ''paris'', address_z = ''1 rue b'',
       rest_f = ''chez a'', city_f = ''paris'', address_f = ''1 rue b''\<rparr>,
      \<lparr>rest_z = ''chez a'', city_z = ''paris'', address_z = ''1 rue b'',
       rest_f = ''da c'', city_f = ''paris'', address_f = ''2 via d''\<rparr>,
      \<lparr>rest_z = ''da c'', city_z = ''roma'', address_z = ''2 via d'',
       rest_f = ''chez e'', city_f = ''roma'', address_f = ''3 rue f''\<rparr>]"

definition example_sets :: "pattern set \<times> pattern set \<times> pattern set" where
  "example_sets =
     (set pattern_domain - {(High, High, High), (Low, Low, Low)},
      {(High, High, High)}, {(Low, Low, Low)})"

section \<open>Properties\<close>

subsection \<open>Rounding\<close>

lemma round_even_err: "\<bar>of_int (round_even y) - y\<bar> \<le> 1 / 2"
  unfolding round_even_def Let_def by (auto; linarith)

lemma round_even_of_int: "round_even (of_int n) = n"
  by (simp add: round_even_def)

lemma round_even_le: "y \<le> of_int N \<Longrightarrow> round_even y \<le> N"
proof (cases "y = of_int N")
  case True
  then show ?thesis by (simp add: round_even_of_int)
next
  case False
  assume "y \<le> of_int N"
  with False have "y < of_int N" by simp
  then have "\<lfloor>y\<rfloor> < N" by (simp add: floor_less_iff)
  then show ?thesis unfolding round_even_def Let_def by auto
qed

lemma round_even_ge: "of_int N \<le> y \<Longrightarrow> N \<le> round_even y"
proof -
  assume "of_int N \<le> y"
  then have "N \<le> \<lfloor>y\<rfloor>" by (simp add: le_floor_iff)
  then show ?thesis unfolding round_even_def Let_def by auto
qed

lemma powr_powi: "(2::real) powr real_of_int k = 2 powi k"
  by (simp add: powr_real_of_int')

lemma powr_powi_Suc: "(2::real) powr (real_of_int k + 1) = 2 powi (k + 1)"
  using powr_powi[of "k + 1"] by simp

lemma powi_le_imp_le: "(2::real) powi a \<le> 2 powi b \<Longrightarrow> a \<le> b"
  using power_int_strict_increasing[of b a "2::real"] by (cases "a \<le> b") auto

lemma powi_less_imp_less: "(2::real) powi a < 2 powi b \<Longrightarrow> a < b"
  using power_int_increasing[of b a "2::real"] by (cases "a < b") auto

lemma floor_log2_bracket:
  assumes "x \<noteq> 0"
  shows "2 powi \<lfloor>log 2 \<bar>x\<bar>\<rfloor> \<le> \<bar>x\<bar>" and "\<bar>x\<bar> < 2 powi (\<lfloor>log 2 \<bar>x\<bar>\<rfloor> + 1)"
proof -
  from assms have pos: "0 < \<bar>x\<bar>" by simp
  have "(2::real) powr real_of_int \<lfloor>log 2 \<bar>x\<bar>\<rfloor> \<le> \<bar>x\<bar> \<and>
      \<bar>x\<bar> < (2::real) powr (real_of_int \<lfloor>log 2 \<bar>x\<bar>\<rfloor> + 1)"
    using floor_log_eq_powr_iff[OF pos, of 2 "\<lfloor>log 2 \<bar>x\<bar>\<rfloor>"] by simp
  then show "2 powi \<lfloor>log 2 \<bar>x\<bar>\<rfloor> \<le> \<bar>x\<bar>" and "\<bar>x\<bar> < 2 powi (\<lfloor>log 2 \<bar>x\<bar>\<rfloor> + 1)"
    by (simp_all only: powr_powi powr_powi_Suc)
qed

lemma floor_log2_eq:
  assumes "2 powi e \<le> \<bar>x\<bar>" "\<bar>x\<bar> < 2 powi (e + 1)"
  shows "\<lfloor>log 2 \<bar>x\<bar>\<rfloor> = e"
proof -
  have "(0::real) < 2 powi e" by simp
  with assms(1) have pos: "0 < \<bar>x\<bar>" by linarith
  have "(2::real) powr real_of_int e \<le> \<bar>x\<bar> \<and> \<bar>x\<bar> < (2::real) powr (real_of_int e + 1)"
    using assms by (simp only: powr_powi powr_powi_Suc)
  then show ?thesis
    using floor_log_eq_powr_iff[OF pos, of 2 e] by simp
qed

lemma fl_bracket:
  assumes "2 powi e \<le> \<bar>x\<bar>" "\<bar>x\<bar> < 2 powi (e + 1)"
  shows "fl x = of_int (round_even (x / 2 powi (e - 52))) * 2 powi (e - 52)"
proof -
  have "(0::real) < 2 powi e" by simp
  with assms(1) have "0 < \<bar>x\<bar>" by linarith
  then have "x \<noteq> 0" by simp
  then show ?thesis
    by (simp add: fl_def Let_def floor_log2_eq[OF assms])
qed

lemma fl_zero: "fl 0 = 0"
  by (simp add: fl_def)

lemma fl_error: "\<bar>fl x - x\<bar> \<le> \<bar>x\<bar> / 2 ^ 53"
proof (cases "x = 0")
  case True
  then show ?thesis by (simp add: fl_zero)
next
  case False
  define e where "e = \<lfloor>log 2 \<bar>x\<bar>\<rfloor>"
  define q :: real where "q = 2 powi (e - 52)"
  have q: "0 < q" by (simp add: q_def)
  have lo: "2 powi e \<le> \<bar>x\<bar>" unfolding e_def by (rule floor_log2_bracket[OF False])
  have f: "fl x = of_int (round_even (x / q)) * q"
    using False by (simp add: fl_def Let_def e_def q_def)
  have "fl x - x = (of_int (round_even (x / q)) - x / q) * q"
    using q by (simp add: f field_simps)
  then have "\<bar>fl x - x\<bar> = \<bar>of_int (round_even (x / q)) - x / q\<bar> * q"
    using q by (simp add: abs_mult)
  also have "\<dots> \<le> 1 / 2 * q"
    using round_even_err[of "x / q"] q by (simp add: mult_right_mono)
  also have "\<dots> = 2 powi e / 2 ^ 53"
    by (simp add: q_def power_int_diff)
  also have "\<dots> \<le> \<bar>x\<bar> / 2 ^ 53"
    using lo by (simp add: divide_right_mono)
  finally show ?thesis .
qed

lemma fl_nonneg: "0 \<le> x \<Longrightarrow> 0 \<le> fl x"
proof -
  assume x: "0 \<le> x"
  have "\<bar>fl x - x\<bar> \<le> x / 2 ^ 53" using fl_error[of x] x by simp
  moreover have "x / 2 ^ 53 \<le> x" using x by (simp add: field_simps)
  ultimately show ?thesis by linarith
qed

lemma fl_pos: "0 < x \<Longrightarrow> 0 < fl x"
proof -
  assume x: "0 < x"
  have "\<bar>fl x - x\<bar> \<le> x / 2 ^ 53" using fl_error[of x] x by simp
  moreover have "x / 2 ^ 53 < x" using x by (simp add: field_simps)
  ultimately show ?thesis by linarith
qed

lemma fl_le_one:
  assumes "0 \<le> x" "x \<le> 1"
  shows "fl x \<le> 1"
proof (cases "x = 0")
  case True
  then show ?thesis by (simp add: fl_zero)
next
  case False
  define e where "e = \<lfloor>log 2 \<bar>x\<bar>\<rfloor>"
  define q :: real where "q = 2 powi (e - 52)"
  have q: "0 < q" by (simp add: q_def)
  have lo: "2 powi e \<le> \<bar>x\<bar>" unfolding e_def by (rule floor_log2_bracket[OF False])
  with assms have "(2::real) powi e \<le> 2 powi 0" by simp
  then have e0: "e \<le> 0" by (rule powi_le_imp_le)
  have f: "fl x = of_int (round_even (x / q)) * q"
    using False by (simp add: fl_def Let_def e_def q_def)
  have "1 / q = 2 powi (52 - e)"
    by (simp add: q_def power_int_diff field_simps)
  also have "\<dots> = of_int (2 ^ nat (52 - e))"
    using e0 by (simp add: power_int_def)
  finally have inv: "1 / q = of_int (2 ^ nat (52 - e))" .
  have "x / q \<le> 1 / q" using assms(2) q by (simp add: divide_right_mono)
  then have "round_even (x / q) \<le> 2 ^ nat (52 - e)"
    unfolding inv by (rule round_even_le)
  then have "of_int (round_even (x / q)) \<le> (of_int (2 ^ nat (52 - e)) :: real)"
    by (simp only: of_int_le_iff)
  then have "of_int (round_even (x / q)) * q \<le> of_int (2 ^ nat (52 - e)) * q"
    using q by (simp only: mult_right_mono less_imp_le)
  also have "\<dots> = 1" using inv q by (simp add: field_simps)
  finally show ?thesis by (simp add: f)
qed

lemma fl_representable:
  assumes "\<bar>m\<bar> < 2 ^ 53"
  shows "fl (of_int m * 2 powi k) = of_int m * 2 powi k"
proof (cases "m = 0")
  case True
  then show ?thesis by (simp add: fl_zero)
next
  case False
  define x :: real where "x = of_int m * 2 powi k"
  have x0: "x \<noteq> 0" using False by (simp add: x_def)
  define e where "e = \<lfloor>log 2 \<bar>x\<bar>\<rfloor>"
  have lo: "2 powi e \<le> \<bar>x\<bar>" unfolding e_def by (rule floor_log2_bracket[OF x0])
  have ax: "\<bar>x\<bar> = of_int \<bar>m\<bar> * 2 powi k" by (simp add: x_def abs_mult)
  have "\<bar>x\<bar> < 2 ^ 53 * 2 powi k"
  proof -
    have "(of_int \<bar>m\<bar> :: real) < of_int (2 ^ 53)" using assms by (simp only: of_int_less_iff)
    then show ?thesis unfolding ax by (simp add: mult_strict_right_mono)
  qed
  also have "\<dots> = 2 powi (53 + k)" by (simp add: power_int_add)
  finally have "(2::real) powi e < 2 powi (53 + k)" using lo by linarith
  then have ek: "e < 53 + k" by (rule powi_less_imp_less)
  define j where "j = nat (52 + k - e)"
  have j: "int j = 52 + k - e" using ek by (simp add: j_def)
  have "x / 2 powi (e - 52) = of_int m * 2 powi (k - (e - 52))"
    by (simp add: x_def power_int_diff)
  also have "k - (e - 52) = int j" using j by simp
  also have "of_int m * (2::real) powi int j = of_int (m * 2 ^ j)" by simp
  finally have quo: "x / 2 powi (e - 52) = of_int (m * 2 ^ j)" .
  have "fl x = of_int (round_even (x / 2 powi (e - 52))) * 2 powi (e - 52)"
    using x0 by (simp add: fl_def Let_def e_def)
  also have "\<dots> = of_int (m * 2 ^ j) * 2 powi (e - 52)"
    by (simp only: quo round_even_of_int)
  also have "\<dots> = x / 2 powi (e - 52) * 2 powi (e - 52)" by (simp only: quo)
  also have "\<dots> = x" by simp
  finally show ?thesis by (simp add: x_def)
qed

text \<open>Some floats, and two sums that fall half-way between two floats.\<close>

lemma fl_one: "fl 1 = 1"
  using fl_representable[of 1 0] by simp

lemma fl_half: "fl (1 / 2) = 1 / 2"
  using fl_representable[of 1 "- 1"] by simp

lemma fl_2p53: "fl 9007199254740992 = 9007199254740992"
  using fl_representable[of 1 53] by simp

lemma fl_2m54: "fl (1 / 18014398509481984) = 1 / 18014398509481984"
  using fl_representable[of 1 "- 54"] by simp

lemma fl_half_minus: "fl (9007199254740991 / 18014398509481984) = 9007199254740991 / 18014398509481984"
  using fl_representable[of 9007199254740991 "- 54"] by simp

lemma fl_tie_down: "fl (9007199254740993 / 18014398509481984) = 1 / 2"
  using fl_bracket[of "- 1" "9007199254740993 / 18014398509481984"]
  by (simp add: round_even_def Let_def)

lemma fl_tie_up: "fl (18014398509481983 / 18014398509481984) = 1"
  using fl_bracket[of "- 1" "18014398509481983 / 18014398509481984"]
  by (simp add: round_even_def Let_def)

text \<open>One third and two thirds are not floats: the quotients are rounded down.\<close>

lemma fl_third: "fl (1 / 3) = 6004799503160661 / 18014398509481984"
  using fl_bracket[of "- 2" "1 / 3"]
  by (simp add: round_even_def Let_def)

lemma fl_two_thirds: "fl (2 / 3) = 6004799503160661 / 9007199254740992"
  using fl_bracket[of "- 1" "2 / 3"]
  by (simp add: round_even_def Let_def)

text \<open>
  The error of a sum accumulated with rounding, for summands that are not negative.
\<close>

lemma foldl_fl_error:
  assumes "\<forall>x \<in> set xs. 0 \<le> x" "0 \<le> a"
  shows "\<bar>foldl (\<lambda>s x. fl (s + x)) a xs - (a + sum_list xs)\<bar> \<le>
         ((1 + 1 / 2 ^ 53) ^ length xs - 1) * (a + sum_list xs)"
  using assms
proof (induction xs arbitrary: a)
  case Nil
  then show ?case by simp
next
  case (Cons x xs)
  define u :: real where "u = 1 / 2 ^ 53"
  define y where "y = a + x"
  define T where "T = sum_list xs"
  define g where "g = (1 + u) ^ length xs - 1"
  define F where "F = foldl (\<lambda>s x. fl (s + x)) (fl y) xs"
  have u0: "0 \<le> u" by (simp add: u_def)
  from Cons.prems have y0: "0 \<le> y" by (simp add: y_def)
  from Cons.prems have nn: "\<forall>x \<in> set xs. 0 \<le> x" by simp
  then have T0: "0 \<le> T" unfolding T_def by (simp add: sum_list_nonneg)
  have g0: "0 \<le> g" using u0 by (simp add: g_def)
  have a0: "0 \<le> fl y" using y0 by (rule fl_nonneg)
  have "\<bar>fl y - y\<bar> \<le> \<bar>y\<bar> / 2 ^ 53" by (rule fl_error)
  then have e: "\<bar>fl y - y\<bar> \<le> u * y" using y0 by (simp add: u_def)
  from Cons.IH[OF nn a0]
  have ih: "\<bar>F - (fl y + T)\<bar> \<le> g * (fl y + T)"
    by (simp add: F_def T_def g_def u_def)
  have "fl y + T \<le> (1 + u) * (y + T)"
  proof -
    have "fl y \<le> y + u * y" using e by linarith
    moreover have "0 \<le> u * T" using u0 T0 by simp
    ultimately show ?thesis by (simp add: algebra_simps)
  qed
  then have "g * (fl y + T) \<le> g * ((1 + u) * (y + T))"
    using g0 by (rule mult_left_mono)
  moreover have "u * y \<le> u * (y + T)"
    using u0 T0 by (simp add: mult_left_mono)
  moreover have "\<bar>F - (y + T)\<bar> \<le> \<bar>F - (fl y + T)\<bar> + \<bar>fl y - y\<bar>" by linarith
  ultimately have "\<bar>F - (y + T)\<bar> \<le> g * ((1 + u) * (y + T)) + u * (y + T)"
    using ih e by linarith
  also have "\<dots> = ((1 + u) ^ length (x # xs) - 1) * (y + T)"
    by (simp add: g_def algebra_simps)
  finally show ?case
    by (simp add: F_def y_def T_def u_def add.assoc)
qed

subsection \<open>The loops of \<^verbatim>\<open>create_sets\<close> in closed form\<close>

lemma getitem_freq_of: "k \<in> set (map fst d) \<Longrightarrow> getitem d k = Inr (freq_of d k)"
  by (auto simp: getitem_def freq_of_def map_of_eq_None_iff split: option.splits)

lemma freq_of_key: "distinct (map fst d) \<Longrightarrow> (t, p) \<in> set d \<Longrightarrow> freq_of d t = p"
  by (simp add: freq_of_def)

lemma triage_loop_eq:
  "set (map fst fu) \<subseteq> set (map fst fm) \<Longrightarrow>
   triage_loop fm fu s = Inr
     \<lparr>tr_possible = tr_possible s \<union>
        {t \<in> set (map fst (filter (\<lambda>(t, u). u = 0) fu)). freq_of fm t = 0},
      tr_ratios =
        tr_ratios s @ map (\<lambda>(t, u). fl (freq_of fm t / u)) (filter (\<lambda>(t, u). u \<noteq> 0) fu),
      tr_to_rank = tr_to_rank s @ map fst (filter (\<lambda>(t, u). u \<noteq> 0) fu),
      tr_front = tr_front s @
        filter (\<lambda>t. freq_of fm t \<noteq> 0) (map fst (filter (\<lambda>(t, u). u = 0) fu))\<rparr>"
proof (induction fu arbitrary: s)
  case Nil
  then show ?case by simp
next
  case (Cons a fu)
  obtain t u where a: "a = (t, u)" by (cases a)
  from Cons.prems a have t: "t \<in> set (map fst fm)"
    and sub: "set (map fst fu) \<subseteq> set (map fst fm)"
    by auto
  show ?case
    unfolding a using Cons.IH[OF sub] getitem_freq_of[OF t]
    by auto
qed

lemma triage_loop_init:
  "set (map fst fu) \<subseteq> set (map fst fm) \<Longrightarrow>
   triage_loop fm fu triage_init = Inr
     \<lparr>tr_possible = zero_evidence fm fu, tr_ratios = ratios_of fm fu,
      tr_to_rank = to_rank_of fu, tr_front = front_of fm fu\<rparr>"
  by (simp add: triage_loop_eq triage_init_def zero_evidence_def ratios_of_def to_rank_of_def
      front_of_def)

lemma take_ranks_eq:
  "\<forall>r \<in> set order. r < length ts \<Longrightarrow>
   take_ranks ts order acc = Inr (acc @ map (\<lambda>i. ts ! i) order)"
  by (induction order arbitrary: acc) auto

lemma is_argsort_set: "is_argsort argsort \<Longrightarrow> set (argsort xs) = {0..<length xs}"
  unfolding is_argsort_def by (metis mset_eq_setD set_upt)

lemma rank_tuples_eq:
  assumes "is_argsort argsort" "length rs = length ts"
  shows "rank_tuples argsort fr ts rs = Inr (fr @ map (\<lambda>i. ts ! i) (rev (argsort rs)))"
proof -
  have "\<forall>r \<in> set (rev (argsort rs)). r < length ts"
    using is_argsort_set[OF assms(1), of rs] assms(2) by auto
  from take_ranks_eq[OF this, of "[]"] show ?thesis
    by (simp add: rank_tuples_def)
qed

lemma mset_ranked:
  assumes "is_argsort argsort" "length rs = length ts"
  shows "mset (map (\<lambda>i. ts ! i) (rev (argsort rs))) = mset ts"
proof -
  have "mset (map (\<lambda>i. ts ! i) (rev (argsort rs))) = image_mset (\<lambda>i. ts ! i) (mset (argsort rs))"
    by simp
  also have "\<dots> = image_mset (\<lambda>i. ts ! i) (mset [0..<length ts])"
    using assms unfolding is_argsort_def by simp
  also have "\<dots> = mset (map (\<lambda>i. ts ! i) [0..<length ts])" by simp
  also have "\<dots> = mset ts" by (simp add: map_nth)
  finally show ?thesis .
qed

lemma cum_loop_eq:
  "set ts \<subseteq> set (map fst freqs) \<Longrightarrow>
   cum_loop level freqs ts cp S = Inr (S \<union> set (cut level (freq_of freqs) ts cp))"
proof (induction ts arbitrary: cp S)
  case Nil
  then show ?case by simp
next
  case (Cons t ts)
  from Cons.prems have "t \<in> set (map fst freqs)" and sub: "set ts \<subseteq> set (map fst freqs)"
    by simp_all
  then have t: "getitem freqs t = Inr (freq_of freqs t)"
    by (simp only: getitem_freq_of)
  show ?case using Cons.IH[OF sub] t by (auto simp add: Let_def)
qed

lemma set_cut: "set (cut level f ts cp) \<subseteq> set ts"
  by (induction ts arbitrary: cp) auto

lemma distinct_cut: "distinct ts \<Longrightarrow> distinct (cut level f ts cp)"
proof (induction ts arbitrary: cp)
  case Nil
  then show ?case by simp
next
  case (Cons t ts)
  then show ?case using set_cut[of level f ts "fl (cp + f t)"] by auto
qed

text \<open>
  The running sum, as the loop rounds it, never passes the level: the loop stops before
  it would.
\<close>

lemma float_sum_cut:
  "cp \<le> level \<Longrightarrow> foldl (\<lambda>s x. fl (s + x)) cp (map f (cut level f ts cp)) \<le> level"
proof (induction ts arbitrary: cp)
  case Nil
  then show ?case by simp
next
  case (Cons t ts)
  show ?case
  proof (cases "fl (cp + f t) \<le> level")
    case True
    from Cons.IH[OF True] True show ?thesis by simp
  next
    case False
    with Cons.prems show ?thesis by simp
  qed
qed

text \<open>
  The exact sum of the accepted entries can pass the level, by at most the rounding
  error of each accepted addition.
\<close>

lemma exact_sum_cut:
  assumes "\<forall>t \<in> set ts. 0 \<le> f t" "0 \<le> cp" "cp \<le> level"
  shows "cp + sum_list (map f (cut level f ts cp)) \<le>
         level + level / (2 ^ 53 - 1) * real (length (cut level f ts cp))"
  using assms
proof (induction ts arbitrary: cp)
  case Nil
  then show ?case by simp
next
  case (Cons t ts)
  show ?case
  proof (cases "fl (cp + f t) \<le> level")
    case False
    with Cons.prems show ?thesis by simp
  next
    case True
    define y where "y = cp + f t"
    define c where "c = fl y"
    from Cons.prems have y0: "0 \<le> y" by (simp add: y_def)
    then have c0: "0 \<le> c" unfolding c_def by (rule fl_nonneg)
    from True have cl: "c \<le> level" by (simp add: c_def y_def)
    have "\<bar>fl y - y\<bar> \<le> \<bar>y\<bar> / 2 ^ 53" by (rule fl_error)
    moreover have "\<bar>y\<bar> = y" using y0 by simp
    ultimately have err: "y - c \<le> y / 2 ^ 53" unfolding c_def by linarith
    then have "y * (2 ^ 53 - 1) \<le> c * 2 ^ 53" by (simp add: field_simps)
    with cl have "y * (2 ^ 53 - 1) \<le> level * 2 ^ 53"
      by (smt (verit) mult_right_mono zero_le_power)
    then have "y / 2 ^ 53 \<le> level / (2 ^ 53 - 1)" by (simp add: field_simps)
    with err have step: "y \<le> c + level / (2 ^ 53 - 1)" by linarith
    from Cons.prems have nn: "\<forall>t \<in> set ts. 0 \<le> f t" by simp
    from Cons.IH[OF nn c0 cl]
    have "c + sum_list (map f (cut level f ts c)) \<le>
        level + level / (2 ^ 53 - 1) * real (length (cut level f ts c))" .
    moreover have "level / (2 ^ 53 - 1) * (1 + real (length (cut level f ts c))) =
        level / (2 ^ 53 - 1) + level / (2 ^ 53 - 1) * real (length (cut level f ts c))"
      by (simp only: distrib_left mult_1_right)
    ultimately have "y + sum_list (map f (cut level f ts c)) \<le>
        level + level / (2 ^ 53 - 1) * (1 + real (length (cut level f ts c)))"
      using step by linarith
    then show ?thesis using True by (simp add: y_def c_def add.assoc)
  qed
qed

lemma cut_zero:
  "\<forall>t \<in> set fr. f t = 0 \<Longrightarrow> \<forall>t \<in> set zs. 0 < f t \<Longrightarrow> cut 0 f (fr @ zs) 0 = fr"
proof (induction fr)
  case Nil
  then show ?case by (cases zs) (auto simp: not_le fl_pos)
next
  case (Cons a fr)
  then show ?case by (simp add: fl_zero)
qed

lemma mset_ranked_of:
  assumes "is_argsort argsort"
  shows "mset (ranked_of argsort fm fu) = mset (front_of fm fu) + mset (to_rank_of fu)"
proof -
  have len: "length (ratios_of fm fu) = length (to_rank_of fu)"
    by (simp add: ratios_of_def to_rank_of_def)
  show ?thesis
    using mset_ranked[OF assms len] by (simp add: ranked_of_def)
qed

lemma set_ranked_of:
  "is_argsort argsort \<Longrightarrow>
   set (ranked_of argsort fm fu) = set (front_of fm fu) \<union> set (to_rank_of fu)"
  using mset_ranked_of[of argsort fm fu] by (metis set_mset_mset set_mset_union)

lemma ranked_keys:
  "is_argsort argsort \<Longrightarrow> set (ranked_of argsort fm fu) \<subseteq> set (map fst fu)"
  by (auto simp: set_ranked_of front_of_def to_rank_of_def)

lemma distinct_ranked_of:
  assumes "is_argsort argsort" "distinct (map fst fu)"
  shows "distinct (ranked_of argsort fm fu)"
proof -
  have d: "distinct (front_of fm fu @ to_rank_of fu)"
    using assms(2) unfolding front_of_def to_rank_of_def
    by (induction fu) (auto simp: rev_image_eqI)
  have "mset (ranked_of argsort fm fu) = mset (front_of fm fu @ to_rank_of fu)"
    using mset_ranked_of[OF assms(1), of fm fu] by simp
  from mset_eq_imp_distinct_iff[OF this] d show ?thesis by blast
qed

lemma zero_evidence_ranked_disjoint:
  assumes "is_argsort argsort" "distinct (map fst fu)"
  shows "zero_evidence fm fu \<inter> set (ranked_of argsort fm fu) = {}"
proof -
  have "zero_evidence fm fu \<inter> (set (front_of fm fu) \<union> set (to_rank_of fu)) = {}"
    using assms(2) unfolding zero_evidence_def front_of_def to_rank_of_def
    by (auto dest: eq_key_imp_eq_value)
  then show ?thesis by (simp add: set_ranked_of[OF assms(1)])
qed

lemma zero_evidence_ranked_cover:
  assumes "is_argsort argsort"
  shows "zero_evidence fm fu \<union> set (ranked_of argsort fm fu) = set (map fst fu)"
  unfolding set_ranked_of[OF assms] zero_evidence_def front_of_def to_rank_of_def
  by force

text \<open>
  When every key of the u-table is a key of the m-table, no lookup fails, and the local
  variables of \<^verbatim>\<open>create_sets\<close> are these.
\<close>

lemma create_sets_locals_eq:
  assumes "is_argsort argsort" "set (map fst fu) \<subseteq> set (map fst fm)"
  shows "create_sets_locals argsort fm fu mu lmbda = Inr
     \<lparr>l_possible = zero_evidence fm fu \<union>
        (set (ranked_of argsort fm fu) -
          (set (cut mu (freq_of fu) (ranked_of argsort fm fu) 0) \<union>
           (set (cut lmbda (freq_of fm) (rev (ranked_of argsort fm fu)) 0) -
            set (cut mu (freq_of fu) (ranked_of argsort fm fu) 0)))),
      l_match = set (cut mu (freq_of fu) (ranked_of argsort fm fu) 0),
      l_unmatch = set (cut lmbda (freq_of fm) (rev (ranked_of argsort fm fu)) 0) -
            set (cut mu (freq_of fu) (ranked_of argsort fm fu) 0),
      l_unmatch_full = set (cut lmbda (freq_of fm) (rev (ranked_of argsort fm fu)) 0),
      l_ranked = rev (ranked_of argsort fm fu)\<rparr>"
proof -
  have len: "length (ratios_of fm fu) = length (to_rank_of fu)"
    by (simp add: ratios_of_def to_rank_of_def)
  have r: "rank_tuples argsort (front_of fm fu) (to_rank_of fu) (ratios_of fm fu) =
      Inr (ranked_of argsort fm fu)"
    by (simp add: rank_tuples_eq[OF assms(1) len] ranked_of_def)
  have ku: "set (ranked_of argsort fm fu) \<subseteq> set (map fst fu)"
    by (rule ranked_keys[OF assms(1)])
  have km: "set (rev (ranked_of argsort fm fu)) \<subseteq> set (map fst fm)"
    using ku assms(2) by auto
  show ?thesis
    unfolding create_sets_locals_def
    by (simp add: triage_loop_init[OF assms(2)] r sort_by_cum_pr_def cum_loop_eq[OF ku]
        cum_loop_eq[OF km] Let_def)
qed

subsection \<open>The pattern domain and the concrete inputs\<close>

lemma stable_argsort_ok: "is_argsort stable_argsort"
  by (simp add: is_argsort_def stable_argsort_def)

lemma pattern_domain_eq:
  "pattern_domain =
    [(Low, Low, Low), (Low, Low, Medium), (Low, Low, High),
     (Low, Medium, Low), (Low, Medium, Medium), (Low, Medium, High),
     (Low, High, Low), (Low, High, Medium), (Low, High, High),
     (Medium, Low, Low), (Medium, Low, Medium), (Medium, Low, High),
     (Medium, Medium, Low), (Medium, Medium, Medium), (Medium, Medium, High),
     (Medium, High, Low), (Medium, High, Medium), (Medium, High, High),
     (High, Low, Low), (High, Low, Medium), (High, Low, High),
     (High, Medium, Low), (High, Medium, Medium), (High, Medium, High),
     (High, High, Low), (High, High, Medium), (High, High, High)]"
  by (simp add: pattern_domain_def init_counts_def categories_def)

lemma distinct_pattern_domain: "distinct pattern_domain"
  by (simp add: pattern_domain_eq)

lemma length_pattern_domain: "length pattern_domain = 27"
  by (simp add: pattern_domain_eq)

lemma set_pattern_domain: "set pattern_domain = UNIV"
proof -
  have "t \<in> set pattern_domain" for t :: pattern
  proof -
    obtain a b c where t: "t = (a, b, c)" by (cases t)
    show ?thesis unfolding t by (cases a; cases b; cases c) (simp_all add: pattern_domain_eq)
  qed
  then show ?thesis by blast
qed

lemma full_table_map: "full_table (map (\<lambda>t. (t, f t)) pattern_domain)"
  by (simp add: full_table_def comp_def distinct_pattern_domain)

lemma nonneg_table_map: "(\<And>t. 0 \<le> f t) \<Longrightarrow> nonneg_table (map (\<lambda>t. (t, f t)) pattern_domain)"
  by (auto simp add: nonneg_table_def list_all_iff)

lemma full_scenario_m: "full_table scenario_m"
  unfolding scenario_m_def by (rule full_table_map)

lemma full_scenario_u: "full_table scenario_u"
  unfolding scenario_u_def by (rule full_table_map)

lemma nonneg_scenario_m: "nonneg_table scenario_m"
  unfolding scenario_m_def by (rule nonneg_table_map) simp

lemma nonneg_scenario_u: "nonneg_table scenario_u"
  unfolding scenario_u_def by (rule nonneg_table_map) simp

text \<open>The definitions and facts that evaluate \<^verbatim>\<open>create_sets\<close> on a concrete input.\<close>

lemmas eval_create_sets =
  create_sets_def create_sets_locals_def triage_init_def rank_tuples_def sort_by_cum_pr_def
  stable_argsort_def getitem_def pattern_domain_eq fl_zero fl_one Let_def

lemma zero_evidence_filter:
  "zero_evidence fm fu =
     set (filter (\<lambda>t. freq_of fm t = 0) (map fst (filter (\<lambda>(t, u). u = 0) fu)))"
  by (auto simp: zero_evidence_def)

lemma length_cut: "length (cut level f ts cp) \<le> length ts"
  by (induction ts arbitrary: cp) (auto simp: le_SucI)

lemma cut_prefix: "\<exists>zs. ts = cut level f ts cp @ zs"
  by (induction ts arbitrary: cp) auto

lemma freq_of_const:
  "t \<in> set xs \<Longrightarrow> freq_of (map (\<lambda>t. (t, c)) xs) t = c"
  by (induction xs) (auto simp: freq_of_def)

text \<open>The scenario of the specification, computed.\<close>

lemma scenario_value:
  "create_sets stable_argsort scenario_m scenario_u (1 / 10) (1 / 10) =
     Inr (set pattern_domain - {(High, High, High), (Low, Low, Low)},
          {(High, High, High)}, {(Low, Low, Low)})"
  by (simp add: eval_create_sets scenario_m_def scenario_u_def) auto

subsection \<open>The partition\<close>

text \<open>
  For tables over any keys: when the u-table has no duplicate key and each of its keys is
  a key of the m-table, the three sets partition the keys of the u-table.
\<close>

lemma create_sets_partition_keys:
  assumes "is_argsort argsort" "distinct (map fst fu)" "set (map fst fu) \<subseteq> set (map fst fm)"
  shows "\<exists>possible match unmatch.
           create_sets argsort fm fu mu lmbda = Inr (possible, match, unmatch) \<and>
           match \<inter> unmatch = {} \<and> match \<inter> possible = {} \<and> unmatch \<inter> possible = {} \<and>
           possible \<union> match \<union> unmatch = set (map fst fu)"
proof -
  let ?R = "ranked_of argsort fm fu"
  let ?Z = "zero_evidence fm fu"
  let ?M = "set (cut mu (freq_of fu) ?R 0)"
  let ?U = "set (cut lmbda (freq_of fm) (rev ?R) 0)"
  have M: "?M \<subseteq> set ?R" by (rule set_cut)
  have U: "?U \<subseteq> set ?R" using set_cut[of lmbda "freq_of fm" "rev ?R" 0] by simp
  have dis: "?Z \<inter> set ?R = {}" by (rule zero_evidence_ranked_disjoint[OF assms(1,2)])
  have cov: "?Z \<union> set ?R = set (map fst fu)"
    by (rule zero_evidence_ranked_cover[OF assms(1)])
  have eq: "create_sets argsort fm fu mu lmbda =
      Inr (?Z \<union> (set ?R - (?M \<union> (?U - ?M))), ?M, ?U - ?M)"
    by (simp add: create_sets_def create_sets_locals_eq[OF assms(1,3)])
  have "?M \<inter> (?U - ?M) = {}" by blast
  moreover have "?M \<inter> (?Z \<union> (set ?R - (?M \<union> (?U - ?M)))) = {}" using M dis by blast
  moreover have "(?U - ?M) \<inter> (?Z \<union> (set ?R - (?M \<union> (?U - ?M)))) = {}" using U dis by blast
  moreover have "(?Z \<union> (set ?R - (?M \<union> (?U - ?M)))) \<union> ?M \<union> (?U - ?M) = set (map fst fu)"
    using M U cov by blast
  ultimately show ?thesis using eq by blast
qed

text \<open>
  Claim C1. For frequency tables defined over the full 27-pattern domain and for every
  \<open>mu\<close> and \<open>lmbda\<close>, \<^verbatim>\<open>create_sets\<close> returns three sets that are pairwise disjoint
  and whose union is the full pattern domain.
\<close>

theorem create_sets_partition:
  assumes "is_argsort argsort" "full_table freqs_m" "full_table freqs_u"
  shows "\<exists>possible match unmatch.
           create_sets argsort freqs_m freqs_u mu lmbda = Inr (possible, match, unmatch) \<and>
           match \<inter> unmatch = {} \<and> match \<inter> possible = {} \<and> unmatch \<inter> possible = {} \<and>
           possible \<union> match \<union> unmatch = set pattern_domain"
proof -
  from assms(2,3) have sub: "set (map fst freqs_u) \<subseteq> set (map fst freqs_m)"
    and d: "distinct (map fst freqs_u)" and dom: "set (map fst freqs_u) = set pattern_domain"
    by (simp_all add: full_table_def)
  from create_sets_partition_keys[OF assms(1) d sub, of mu lmbda] dom
  show ?thesis by simp
qed

theorem create_sets_partition_witness:
  "is_argsort stable_argsort \<and> full_table scenario_m \<and> full_table scenario_u \<and>
   (\<exists>possible match unmatch.
      create_sets stable_argsort scenario_m scenario_u (1 / 10) (1 / 10) =
        Inr (possible, match, unmatch) \<and>
      match \<inter> unmatch = {} \<and> match \<inter> possible = {} \<and> unmatch \<inter> possible = {} \<and>
      possible \<union> match \<union> unmatch = set pattern_domain)"
proof -
  have a: "is_argsort stable_argsort" by (rule stable_argsort_ok)
  have m: "full_table scenario_m" by (rule full_scenario_m)
  have u: "full_table scenario_u" by (rule full_scenario_u)
  from create_sets_partition[OF a m u, of "1 / 10" "1 / 10"] a m u show ?thesis by blast
qed

subsection \<open>The error bounds\<close>

text \<open>The tables \<open>rounding_m\<close> and \<open>rounding_u\<close> are frequency tables of floats.\<close>

lemma full_rounding_m: "full_table rounding_m"
  unfolding rounding_m_def by (rule full_table_map)

lemma full_rounding_u: "full_table rounding_u"
  unfolding rounding_u_def by (rule full_table_map)

lemma nonneg_rounding_m: "nonneg_table rounding_m"
  unfolding rounding_m_def by (rule nonneg_table_map) simp

lemma nonneg_rounding_u: "nonneg_table rounding_u"
  unfolding rounding_u_def by (rule nonneg_table_map) simp

lemma rounding_tables_sum:
  "sum_list (map snd rounding_m) = 1" "sum_list (map snd rounding_u) = 1"
  by (simp_all add: rounding_m_def rounding_u_def pattern_domain_eq)

lemma rounding_tables_floats:
  "list_all (\<lambda>(t, p). fl p = p) rounding_m" "list_all (\<lambda>(t, p). fl p = p) rounding_u"
  by (simp_all add: rounding_m_def rounding_u_def pattern_domain_eq fl_zero fl_half fl_2m54
      fl_half_minus)

lemma rounding_freq_u:
  "freq_of rounding_u (High, High, High) = 1 / 2 ^ 54"
  "freq_of rounding_u (Medium, Medium, Medium) = 1 / 2"
  "freq_of rounding_u (Low, Low, Low) = 1 / 2 - 1 / 2 ^ 54"
  by (simp_all add: freq_of_def rounding_u_def pattern_domain_eq)

lemma rounding_freq_m:
  "freq_of rounding_m (High, High, High) = 1 / 2"
  "freq_of rounding_m (Medium, Medium, Medium) = 1 / 2"
  "freq_of rounding_m (Low, Low, Low) = 0"
  by (simp_all add: freq_of_def rounding_m_def pattern_domain_eq)

lemma rounding_to_rank:
  "to_rank_of rounding_u = [(Low, Low, Low), (Medium, Medium, Medium), (High, High, High)]"
  by (simp add: to_rank_of_def rounding_u_def pattern_domain_eq)

lemma rounding_front: "front_of rounding_m rounding_u = []"
  by (simp add: front_of_def rounding_u_def rounding_m_def pattern_domain_eq freq_of_def)

lemma rounding_ratios: "ratios_of rounding_m rounding_u = [0, 1, 9007199254740992]"
  by (simp add: ratios_of_def rounding_u_def rounding_m_def pattern_domain_eq freq_of_def
      fl_zero fl_one fl_2p53)

lemma rounding_argsort: "stable_argsort [0, 1, 9007199254740992] = [0, 1, 2]"
  by (simp add: stable_argsort_def upt_rec)

lemma rounding_ranked:
  "ranked_of stable_argsort rounding_m rounding_u =
     [(High, High, High), (Medium, Medium, Medium), (Low, Low, Low)]"
  by (simp add: ranked_of_def rounding_front rounding_to_rank rounding_ratios rounding_argsort)

text \<open>
  The top cutoff with \<open>mu = 1 / 2\<close>: the running sum is \<open>1 / 2 ^ 54\<close>, then
  \<open>1 / 2 ^ 54 + 1 / 2\<close> rounded, which is \<open>1 / 2\<close> and passes the test, then
  \<open>1 / 2 + (1 / 2 - 1 / 2 ^ 54)\<close> rounded, which is 1.
\<close>

lemma rounding_cut_u:
  "cut (1 / 2) (freq_of rounding_u)
     [(High, High, High), (Medium, Medium, Medium), (Low, Low, Low)] 0 =
   [(High, High, High), (Medium, Medium, Medium)]"
  by (simp add: rounding_freq_u fl_zero fl_one fl_half fl_2m54 fl_tie_down fl_tie_up)

lemma rounding_cut_m:
  "cut (1 / 2) (freq_of rounding_m)
     (rev [(High, High, High), (Medium, Medium, Medium), (Low, Low, Low)]) 0 =
   [(Low, Low, Low), (Medium, Medium, Medium)]"
  by (simp add: rounding_freq_m fl_zero fl_one fl_half)

lemma rounding_zero:
  "zero_evidence rounding_m rounding_u =
     set pattern_domain - {(High, High, High), (Medium, Medium, Medium), (Low, Low, Low)}"
  by (simp add: zero_evidence_filter rounding_u_def rounding_m_def pattern_domain_eq freq_of_def
      insert_Diff_if)

lemma rounding_locals:
  "create_sets_locals stable_argsort rounding_m rounding_u (1 / 2) (1 / 2) =
     Inr \<lparr>l_possible =
            set pattern_domain - {(High, High, High), (Medium, Medium, Medium), (Low, Low, Low)},
          l_match = {(High, High, High), (Medium, Medium, Medium)},
          l_unmatch = {(Low, Low, Low)},
          l_unmatch_full = {(Low, Low, Low), (Medium, Medium, Medium)},
          l_ranked = [(Low, Low, Low), (Medium, Medium, Medium), (High, High, High)]\<rparr>"
proof -
  have sub: "set (map fst rounding_u) \<subseteq> set (map fst rounding_m)"
    by (simp add: rounding_u_def rounding_m_def comp_def)
  show ?thesis
    unfolding create_sets_locals_eq[OF stable_argsort_ok sub] rounding_ranked rounding_cut_u
      rounding_cut_m rounding_zero
    by (simp add: insert_Diff_if insert_commute)
qed

text \<open>
  Claim C2 says that the u-frequencies of \<^verbatim>\<open>match_tuples\<close> sum to at most \<open>mu\<close>. The
  loop compares the running sum as floating-point addition rounds it. On the tables
  \<open>rounding_m\<close> and \<open>rounding_u\<close> with \<open>mu = 1 / 2\<close> it accepts (high, high, high) and
  (medium, medium, medium): their u-frequencies \<open>1 / 2 ^ 54\<close> and \<open>1 / 2\<close> add up to
  \<open>1 / 2\<close> in floating point, and to more than \<open>mu\<close> exactly.
\<close>

theorem rounded_sum_counterexample:
  "full_table rounding_m \<and> full_table rounding_u \<and>
   sum_list (map snd rounding_m) = 1 \<and> sum_list (map snd rounding_u) = 1 \<and>
   create_sets stable_argsort rounding_m rounding_u (1 / 2) (1 / 2) =
     Inr (set pattern_domain - {(High, High, High), (Medium, Medium, Medium), (Low, Low, Low)},
          {(High, High, High), (Medium, Medium, Medium)}, {(Low, Low, Low)}) \<and>
   sum (freq_of rounding_u) {(High, High, High), (Medium, Medium, Medium)} =
     1 / 2 + 1 / 2 ^ 54 \<and>
   \<not> sum (freq_of rounding_u) {(High, High, High), (Medium, Medium, Medium)} \<le> 1 / 2"
  by (simp add: full_rounding_m full_rounding_u rounding_tables_sum create_sets_def
      rounding_locals rounding_freq_u)

text \<open>
  Claim C2, amended. For full-domain tables with entries that are not negative and
  bounds \<open>mu\<close>, \<open>lmbda\<close> that are not negative: \<^verbatim>\<open>match_tuples\<close> is the set of a
  prefix of the ranked list whose u-frequencies, added in that order with the rounding of
  floating-point addition, sum to at most \<open>mu\<close>; their exact sum is at most
  \<open>mu * (1 + 27 / (2 ^ 53 - 1))\<close>. The same holds for \<^verbatim>\<open>unmatch_tuples_full\<close> (the
  bottom cutoff before the subtraction of \<^verbatim>\<open>match_tuples\<close>), the reversed ranked
  list, the m-frequencies and \<open>lmbda\<close>.
\<close>

theorem create_sets_float_bounds:
  assumes "is_argsort argsort" "full_table freqs_m" "full_table freqs_u"
    and "nonneg_table freqs_m" "nonneg_table freqs_u"
    and "0 \<le> mu" "0 \<le> lmbda"
  shows "\<exists>l ms us.
           create_sets_locals argsort freqs_m freqs_u mu lmbda = Inr l \<and>
           create_sets argsort freqs_m freqs_u mu lmbda =
             Inr (l_possible l, l_match l, l_unmatch l) \<and>
           l_match l = set ms \<and> distinct ms \<and> (\<exists>zs. rev (l_ranked l) = ms @ zs) \<and>
           float_sum (map (freq_of freqs_u) ms) \<le> mu \<and>
           (\<Sum>t \<in> l_match l. freq_of freqs_u t) \<le> mu * (1 + 27 / (2 ^ 53 - 1)) \<and>
           l_unmatch_full l = set us \<and> distinct us \<and> (\<exists>zs. l_ranked l = us @ zs) \<and>
           float_sum (map (freq_of freqs_m) us) \<le> lmbda \<and>
           (\<Sum>t \<in> l_unmatch_full l. freq_of freqs_m t) \<le> lmbda * (1 + 27 / (2 ^ 53 - 1))"
proof -
  let ?R = "ranked_of argsort freqs_m freqs_u"
  let ?ms = "cut mu (freq_of freqs_u) ?R 0"
  let ?us = "cut lmbda (freq_of freqs_m) (rev ?R) 0"
  from assms(2,3) have sub: "set (map fst freqs_u) \<subseteq> set (map fst freqs_m)"
    and d: "distinct (map fst freqs_u)"
    and dom: "set (map fst freqs_u) = set pattern_domain"
    by (simp_all add: full_table_def)
  have nn_u: "0 \<le> freq_of freqs_u t" for t
    using assms(5)
    by (auto simp: nonneg_table_def freq_of_def list_all_iff split: option.splits
        dest: map_of_SomeD)
  have nn_m: "0 \<le> freq_of freqs_m t" for t
    using assms(4)
    by (auto simp: nonneg_table_def freq_of_def list_all_iff split: option.splits
        dest: map_of_SomeD)
  have dR: "distinct ?R" by (rule distinct_ranked_of[OF assms(1) d])
  then have dR': "distinct (rev ?R)" by simp
  have "card (set ?R) \<le> card (set pattern_domain)"
    using ranked_keys[OF assms(1), of freqs_m freqs_u] dom by (simp add: card_mono)
  then have lenR: "length ?R \<le> 27"
    using distinct_card[OF dR] distinct_card[OF distinct_pattern_domain]
    by (simp add: length_pattern_domain)
  have bound: "level + level / (2 ^ 53 - 1) * real (length (cut level f ts 0)) \<le>
      level * (1 + 27 / (2 ^ 53 - 1))" if "0 \<le> level" "length ts \<le> 27" for level f
    and ts :: "pattern list"
  proof -
    have "length (cut level f ts 0) \<le> 27"
      using length_cut[of level f ts 0] that(2) by linarith
    then have "real (length (cut level f ts 0)) \<le> 27" by simp
    moreover have "0 \<le> level / (2 ^ 53 - 1)" using that(1) by simp
    ultimately have "level / (2 ^ 53 - 1) * real (length (cut level f ts 0)) \<le>
        level / (2 ^ 53 - 1) * 27"
      by (rule mult_left_mono)
    then show ?thesis by (simp add: algebra_simps)
  qed
  have m1: "float_sum (map (freq_of freqs_u) ?ms) \<le> mu"
    unfolding float_sum_def by (rule float_sum_cut[OF assms(6)])
  have "sum_list (map (freq_of freqs_u) ?ms) \<le>
      mu + mu / (2 ^ 53 - 1) * real (length ?ms)"
    using exact_sum_cut[of ?R "freq_of freqs_u" 0 mu] nn_u assms(6) by simp
  also have "\<dots> \<le> mu * (1 + 27 / (2 ^ 53 - 1))"
    by (rule bound[OF assms(6) lenR])
  finally have m2: "(\<Sum>t \<in> set ?ms. freq_of freqs_u t) \<le> mu * (1 + 27 / (2 ^ 53 - 1))"
    by (simp add: sum_list_distinct_conv_sum_set distinct_cut[OF dR])
  have u1: "float_sum (map (freq_of freqs_m) ?us) \<le> lmbda"
    unfolding float_sum_def by (rule float_sum_cut[OF assms(7)])
  have "sum_list (map (freq_of freqs_m) ?us) \<le>
      lmbda + lmbda / (2 ^ 53 - 1) * real (length ?us)"
    using exact_sum_cut[of "rev ?R" "freq_of freqs_m" 0 lmbda] nn_m assms(7) by simp
  also have "\<dots> \<le> lmbda * (1 + 27 / (2 ^ 53 - 1))"
    using bound[OF assms(7), of "rev ?R" "freq_of freqs_m"] lenR by simp
  finally have u2: "(\<Sum>t \<in> set ?us. freq_of freqs_m t) \<le> lmbda * (1 + 27 / (2 ^ 53 - 1))"
    by (simp add: sum_list_distinct_conv_sum_set distinct_cut[OF dR'])
  have pm: "\<exists>zs. rev (rev ?R) = ?ms @ zs"
    using cut_prefix[of ?R mu "freq_of freqs_u" 0] by simp
  have pu: "\<exists>zs. rev ?R = ?us @ zs" by (rule cut_prefix)
  show ?thesis
    apply (rule exI[of _ "\<lparr>l_possible = zero_evidence freqs_m freqs_u \<union>
        (set ?R - (set ?ms \<union> (set ?us - set ?ms))), l_match = set ?ms,
        l_unmatch = set ?us - set ?ms, l_unmatch_full = set ?us, l_ranked = rev ?R\<rparr>"])
    apply (rule exI[of _ ?ms])
    apply (rule exI[of _ ?us])
    using m1 m2 u1 u2 pm pu distinct_cut[OF dR] distinct_cut[OF dR']
    by (simp add: create_sets_def create_sets_locals_eq[OF assms(1) sub])
qed

theorem create_sets_float_bounds_witness:
  "is_argsort stable_argsort \<and> full_table rounding_m \<and> full_table rounding_u \<and>
   nonneg_table rounding_m \<and> nonneg_table rounding_u \<and> (0::real) \<le> 1 / 2 \<and>
   (\<exists>l ms us.
      create_sets_locals stable_argsort rounding_m rounding_u (1 / 2) (1 / 2) = Inr l \<and>
      create_sets stable_argsort rounding_m rounding_u (1 / 2) (1 / 2) =
        Inr (l_possible l, l_match l, l_unmatch l) \<and>
      l_match l = set ms \<and> distinct ms \<and> (\<exists>zs. rev (l_ranked l) = ms @ zs) \<and>
      float_sum (map (freq_of rounding_u) ms) \<le> 1 / 2 \<and>
      (\<Sum>t \<in> l_match l. freq_of rounding_u t) \<le> 1 / 2 * (1 + 27 / (2 ^ 53 - 1)) \<and>
      l_unmatch_full l = set us \<and> distinct us \<and> (\<exists>zs. l_ranked l = us @ zs) \<and>
      float_sum (map (freq_of rounding_m) us) \<le> 1 / 2 \<and>
      (\<Sum>t \<in> l_unmatch_full l. freq_of rounding_m t) \<le> 1 / 2 * (1 + 27 / (2 ^ 53 - 1)))"
proof -
  have a: "is_argsort stable_argsort" by (rule stable_argsort_ok)
  have m: "full_table rounding_m" by (rule full_rounding_m)
  have u: "full_table rounding_u" by (rule full_rounding_u)
  have nm: "nonneg_table rounding_m" by (rule nonneg_rounding_m)
  have nu: "nonneg_table rounding_u" by (rule nonneg_rounding_u)
  have b: "(0::real) \<le> 1 / 2" by simp
  from create_sets_float_bounds[OF a m u nm nu b b] a m u nm nu b show ?thesis by blast
qed

text \<open>
  On this input the two float sums are \<open>1 / 2\<close>, equal to the bounds; the exact sums are
  \<open>1 / 2 + 1 / 2 ^ 54\<close> over \<^verbatim>\<open>match_tuples\<close> and \<open>1 / 2\<close> over
  \<^verbatim>\<open>unmatch_tuples_full\<close>.
\<close>

lemma rounding_float_sums:
  "float_sum (map (freq_of rounding_u) [(High, High, High), (Medium, Medium, Medium)]) = 1 / 2"
  "float_sum (map (freq_of rounding_m) [(Low, Low, Low), (Medium, Medium, Medium)]) = 1 / 2"
  by (simp_all add: float_sum_def rounding_freq_u rounding_freq_m fl_zero fl_half fl_2m54
      fl_tie_down)

subsection \<open>No range check on the bounds\<close>

text \<open>
  Claim C6 says that \<^verbatim>\<open>create_sets\<close> fails with a ConfigurationError when \<open>mu\<close> or
  \<open>lmbda\<close> is outside [0, 1]. The function has no such check. With \<open>mu = 2\<close> and
  \<open>lmbda = -1\<close> it returns a partition of the domain.
\<close>

theorem range_check_counterexample:
  "create_sets stable_argsort scenario_m scenario_u 2 (- 1) =
     Inr (set pattern_domain - {(High, High, High), (Low, Low, Low)},
          {(High, High, High), (Low, Low, Low)}, {}) \<and>
   create_sets stable_argsort scenario_m scenario_u 2 (- 1) \<noteq> Inl ConfigurationError"
proof -
  have "create_sets stable_argsort scenario_m scenario_u 2 (- 1) =
      Inr (set pattern_domain - {(High, High, High), (Low, Low, Low)},
           {(High, High, High), (Low, Low, Low)}, {})"
    by (simp add: eval_create_sets scenario_m_def scenario_u_def) auto
  then show ?thesis by simp
qed

text \<open>
  Claim C6, amended. \<^verbatim>\<open>create_sets\<close> does not check \<open>mu\<close> and \<open>lmbda\<close>: for
  full-domain tables it returns three sets for all values of \<open>mu\<close> and \<open>lmbda\<close>, those
  outside [0, 1] included.
\<close>

theorem create_sets_no_range_check:
  assumes "is_argsort argsort" "full_table freqs_m" "full_table freqs_u"
  shows "\<exists>possible match unmatch.
           create_sets argsort freqs_m freqs_u mu lmbda = Inr (possible, match, unmatch)"
proof -
  from assms(2,3) have sub: "set (map fst freqs_u) \<subseteq> set (map fst freqs_m)"
    by (simp add: full_table_def)
  show ?thesis
    by (simp add: create_sets_def create_sets_locals_eq[OF assms(1) sub])
qed

theorem create_sets_no_range_check_witness:
  "is_argsort stable_argsort \<and> full_table uniform_table \<and>
   (\<exists>possible match unmatch.
      create_sets stable_argsort uniform_table uniform_table 2 (- 1) =
        Inr (possible, match, unmatch))"
proof -
  have a: "is_argsort stable_argsort" by (rule stable_argsort_ok)
  have u: "full_table uniform_table" unfolding uniform_table_def by (rule full_table_map)
  from create_sets_no_range_check[OF a u u, of 2 "- 1"] a u show ?thesis by blast
qed

subsection \<open>The case \<open>mu = 0\<close>\<close>

text \<open>
  Claim C8. With \<open>mu = 0\<close> and tables whose entries are not negative, the returned
  \<^verbatim>\<open>match_tuples\<close> is exactly the set of front-list patterns (u-frequency 0 and
  m-frequency above 0); so it contains only such patterns.
\<close>

theorem mu_zero_match_is_front:
  assumes "is_argsort argsort" "full_table freqs_m" "full_table freqs_u"
    and "nonneg_table freqs_m" "nonneg_table freqs_u"
  shows "\<exists>possible match unmatch.
           create_sets argsort freqs_m freqs_u 0 lmbda = Inr (possible, match, unmatch) \<and>
           match = {t. freq_of freqs_u t = 0 \<and> 0 < freq_of freqs_m t}"
proof -
  let ?f = "freq_of freqs_u"
  from assms(2,3) have sub: "set (map fst freqs_u) \<subseteq> set (map fst freqs_m)"
    and d: "distinct (map fst freqs_u)"
    and dom: "set (map fst freqs_u) = set (map fst freqs_m)"
    by (simp_all add: full_table_def)
  have nn_u: "0 \<le> ?f t" for t
    using assms(5)
    by (auto simp: nonneg_table_def freq_of_def list_all_iff split: option.splits
        dest: map_of_SomeD)
  have nn_m: "0 \<le> freq_of freqs_m t" for t
    using assms(4)
    by (auto simp: nonneg_table_def freq_of_def list_all_iff split: option.splits
        dest: map_of_SomeD)
  have fr: "\<forall>t \<in> set (front_of freqs_m freqs_u). ?f t = 0"
    using d by (auto simp: front_of_def freq_of_key)
  have "\<forall>t \<in> set (to_rank_of freqs_u). ?f t \<noteq> 0"
    using d by (auto simp: to_rank_of_def freq_of_key)
  then have tr: "\<forall>t \<in> set (to_rank_of freqs_u). 0 < ?f t"
    using nn_u by (metis less_eq_real_def)
  have len: "length (ratios_of freqs_m freqs_u) = length (to_rank_of freqs_u)"
    by (simp add: ratios_of_def to_rank_of_def)
  have "set (map (\<lambda>i. to_rank_of freqs_u ! i) (rev (argsort (ratios_of freqs_m freqs_u)))) =
      set (to_rank_of freqs_u)"
    using mset_ranked[OF assms(1) len] by (metis set_mset_mset)
  with tr have rst:
    "\<forall>t \<in> set (map (\<lambda>i. to_rank_of freqs_u ! i) (rev (argsort (ratios_of freqs_m freqs_u)))).
       0 < ?f t"
    by simp
  have c: "cut 0 ?f (ranked_of argsort freqs_m freqs_u) 0 = front_of freqs_m freqs_u"
    unfolding ranked_of_def by (rule cut_zero[OF fr rst])
  have "set (front_of freqs_m freqs_u) = {t. ?f t = 0 \<and> 0 < freq_of freqs_m t}"
  proof (intro set_eqI iffI)
    fix t assume t: "t \<in> set (front_of freqs_m freqs_u)"
    from t fr have "?f t = 0" by blast
    moreover from t have "freq_of freqs_m t \<noteq> 0" by (simp add: front_of_def)
    ultimately show "t \<in> {t. ?f t = 0 \<and> 0 < freq_of freqs_m t}"
      using nn_m[of t] by simp
  next
    fix t assume "t \<in> {t. ?f t = 0 \<and> 0 < freq_of freqs_m t}"
    then have u: "?f t = 0" and m: "freq_of freqs_m t \<noteq> 0" by auto
    from m have "t \<in> set (map fst freqs_m)"
      by (auto simp: freq_of_def split: option.splits dest: map_of_SomeD intro: rev_image_eqI)
    then have "t \<in> set (map fst freqs_u)" using dom by simp
    then obtain p where p: "(t, p) \<in> set freqs_u" by auto
    with d u have "p = 0" by (simp add: freq_of_key)
    with p m show "t \<in> set (front_of freqs_m freqs_u)"
      by (force simp: front_of_def)
  qed
  then show ?thesis
    by (simp add: create_sets_def create_sets_locals_eq[OF assms(1) sub] c)
qed

theorem mu_zero_match_is_front_witness:
  "is_argsort stable_argsort \<and> full_table scenario_m \<and> full_table scenario_u \<and>
   nonneg_table scenario_m \<and> nonneg_table scenario_u \<and>
   (\<exists>possible match unmatch.
      create_sets stable_argsort scenario_m scenario_u 0 (1 / 10) =
        Inr (possible, match, unmatch) \<and>
      match = {t. freq_of scenario_u t = 0 \<and> 0 < freq_of scenario_m t})"
proof -
  have a: "is_argsort stable_argsort" by (rule stable_argsort_ok)
  have m: "full_table scenario_m" by (rule full_scenario_m)
  have u: "full_table scenario_u" by (rule full_scenario_u)
  have nm: "nonneg_table scenario_m" by (rule nonneg_scenario_m)
  have nu: "nonneg_table scenario_u" by (rule nonneg_scenario_u)
  from mu_zero_match_is_front[OF a m u nm nu, of "1 / 10"] a m u nm nu
  show ?thesis by blast
qed

text \<open>
  In the scenario the front list is (high, high, high) alone; with uniform tables it is
  empty, and so is \<^verbatim>\<open>match_tuples\<close>.
\<close>

lemma mu_zero_scenario:
  "create_sets stable_argsort scenario_m scenario_u 0 (1 / 10) =
     Inr (set pattern_domain - {(High, High, High), (Low, Low, Low)},
          {(High, High, High)}, {(Low, Low, Low)})"
  by (simp add: eval_create_sets scenario_m_def scenario_u_def) auto

lemma mu_zero_match_empty:
  "create_sets stable_argsort uniform_table uniform_table 0 0 = Inr (set pattern_domain, {}, {})"
proof -
  let ?R = "ranked_of stable_argsort uniform_table uniform_table"
  have keys: "map fst uniform_table = pattern_domain"
    by (simp add: uniform_table_def comp_def)
  have sub: "set (map fst uniform_table) \<subseteq> set (map fst uniform_table)" by simp
  have pos: "0 < freq_of uniform_table t" if "t \<in> set pattern_domain" for t
    using freq_of_const[OF that, of "1 / 27"] by (simp add: uniform_table_def)
  have R: "set ?R \<subseteq> set pattern_domain"
    using ranked_keys[OF stable_argsort_ok, of uniform_table uniform_table] keys by simp
  have "cut 0 (freq_of uniform_table) ([] @ ?R) 0 = []"
    by (rule cut_zero) (use pos R in auto)
  then have c1: "cut 0 (freq_of uniform_table) ?R 0 = []" by simp
  have "cut 0 (freq_of uniform_table) ([] @ rev ?R) 0 = []"
    by (rule cut_zero) (use pos R in auto)
  then have c2: "cut 0 (freq_of uniform_table) (rev ?R) 0 = []" by simp
  have "zero_evidence uniform_table uniform_table \<union> set ?R = set pattern_domain"
    using zero_evidence_ranked_cover[OF stable_argsort_ok, of uniform_table uniform_table] keys
    by simp
  then show ?thesis
    by (simp add: create_sets_def create_sets_locals_eq[OF stable_argsort_ok sub] c1 c2)
qed

subsection \<open>The reversal in place\<close>

text \<open>
  Claim C10. \<^verbatim>\<open>sort_by_cum_pr\<close> with \<^verbatim>\<open>left_tail=False\<close> leaves the caller's list
  reversed, with \<^verbatim>\<open>left_tail=True\<close> it leaves it unchanged; and \<^verbatim>\<open>create_sets\<close>
  returns what it would return if the calls worked on copies of the list, since the
  leftover computation only uses the set of the ranked patterns.
\<close>

theorem reverse_in_place_harmless:
  "snd (sort_by_cum_pr level ranked freqs False) = rev ranked \<and>
   snd (sort_by_cum_pr level ranked freqs True) = ranked \<and>
   create_sets argsort freqs_m freqs_u mu lmbda =
     create_sets_on_copies argsort freqs_m freqs_u mu lmbda"
  by (simp add: sort_by_cum_pr_def create_sets_def create_sets_locals_def
      create_sets_on_copies_def Let_def split: sum.splits)

subsection \<open>The ranking\<close>

lemma insort_key_map:
  "insort_key g (h x) (map h xs) = map h (insort_key (\<lambda>y. g (h y)) x xs)"
  by (induction xs) auto

lemma sort_key_map:
  "sort_key g (map h xs) = map h (sort_key (\<lambda>y. g (h y)) xs)"
  by (induction xs) (auto simp: insort_key_map)

lemma zip_as_map:
  "length ys = length xs \<Longrightarrow> zip xs ys = map (\<lambda>i. (xs ! i, ys ! i)) [0..<length xs]"
  by (rule nth_equalityI) auto

text \<open>Sorting the indices by ratio is sorting the (pattern, ratio) pairs by ratio.\<close>

lemma stable_argsort_zip:
  assumes "length rs = length ts"
  shows "map (\<lambda>i. ts ! i) (stable_argsort rs) = map fst (sort_key snd (zip ts rs))"
proof -
  have "sort_key snd (zip ts rs) =
      map (\<lambda>i. (ts ! i, rs ! i)) (sort_key (\<lambda>i. rs ! i) [0..<length ts])"
    by (simp add: zip_as_map[OF assms] sort_key_map)
  then show ?thesis using assms by (simp add: stable_argsort_def comp_def)
qed

text \<open>
  Claim C3 says that patterns of equal ratio keep their original order in the ranked
  list. \<^verbatim>\<open>rank_tuples\<close> reverses the ascending order that \<^verbatim>\<open>argsort\<close> returns, so
  two patterns of equal ratio come out in the reverse of the order \<^verbatim>\<open>argsort\<close> gave
  them: with two patterns of ratio 1, the second is ranked first.
\<close>

theorem tie_order_counterexample:
  "rank_tuples stable_argsort [] [(Low, Low, Low), (High, High, High)] [1, 1] =
     Inr [(High, High, High), (Low, Low, Low)] \<and>
   spec_ranked [] [(Low, Low, Low), (High, High, High)] [1, 1] =
     [(Low, Low, Low), (High, High, High)] \<and>
   rank_tuples stable_argsort [] [(Low, Low, Low), (High, High, High)] [1, 1] \<noteq>
     Inr (spec_ranked [] [(Low, Low, Low), (High, High, High)] [1, 1])"
  by code_simp

text \<open>
  Claim C3, amended. The ranked list is the front list followed by the patterns to rank
  in descending order of ratio: they are taken at the indices \<open>rev (argsort ratios)\<close>,
  a permutation of all indices along which the ratios do not increase. Patterns of equal
  ratio come in the reverse of the order in which \<^verbatim>\<open>argsort\<close> lists them; for the
  stable \<^verbatim>\<open>argsort\<close> the list is the reverse of the stable ascending sort, so equal
  ratios come in reverse enumeration order.
\<close>

theorem rank_tuples_descending:
  assumes "is_argsort argsort" "length ratios = length tuples_to_rank"
  shows "rank_tuples argsort front tuples_to_rank ratios =
           Inr (front @ map (\<lambda>i. tuples_to_rank ! i) (rev (argsort ratios))) \<and>
         mset (rev (argsort ratios)) = mset [0..<length tuples_to_rank] \<and>
         sorted_wrt (\<ge>) (map (\<lambda>i. ratios ! i) (rev (argsort ratios))) \<and>
         rank_tuples stable_argsort front tuples_to_rank ratios =
           Inr (front @ rev (map fst (sort_key snd (zip tuples_to_rank ratios))))"
proof -
  have 1: "rank_tuples argsort front tuples_to_rank ratios =
      Inr (front @ map (\<lambda>i. tuples_to_rank ! i) (rev (argsort ratios)))"
    by (rule rank_tuples_eq[OF assms])
  have 2: "mset (rev (argsort ratios)) = mset [0..<length tuples_to_rank]"
    using assms unfolding is_argsort_def by simp
  have "sorted (map (\<lambda>i. ratios ! i) (argsort ratios))"
    using assms(1) unfolding is_argsort_def by blast
  then have 3: "sorted_wrt (\<ge>) (map (\<lambda>i. ratios ! i) (rev (argsort ratios)))"
    by (simp add: rev_map[symmetric] sorted_wrt_rev)
  have 4: "rank_tuples stable_argsort front tuples_to_rank ratios =
      Inr (front @ rev (map fst (sort_key snd (zip tuples_to_rank ratios))))"
    using rank_tuples_eq[OF stable_argsort_ok assms(2), of front]
    by (simp add: rev_map[symmetric] stable_argsort_zip[OF assms(2)])
  from 1 2 3 4 show ?thesis by blast
qed

theorem rank_tuples_descending_witness:
  "is_argsort stable_argsort \<and>
   length [1 / 2, 2, 1 / 2 :: real] =
     length [(Low, Low, Low), (Medium, Medium, Medium), (Low, High, Low)] \<and>
   rank_tuples stable_argsort [(High, High, High)]
       [(Low, Low, Low), (Medium, Medium, Medium), (Low, High, Low)] [1 / 2, 2, 1 / 2] =
     Inr ([(High, High, High)] @
       map (\<lambda>i. [(Low, Low, Low), (Medium, Medium, Medium), (Low, High, Low)] ! i)
         (rev (stable_argsort [1 / 2, 2, 1 / 2]))) \<and>
   mset (rev (stable_argsort [1 / 2, 2, 1 / 2])) =
     mset [0..<length [(Low, Low, Low), (Medium, Medium, Medium), (Low, High, Low)]] \<and>
   sorted_wrt (\<ge>)
     (map (\<lambda>i. [1 / 2, 2, 1 / 2 :: real] ! i) (rev (stable_argsort [1 / 2, 2, 1 / 2])))"
proof -
  have a: "is_argsort stable_argsort" by (rule stable_argsort_ok)
  have l: "length [1 / 2, 2, 1 / 2 :: real] =
      length [(Low, Low, Low), (Medium, Medium, Medium), (Low, High, Low)]"
    by simp
  from rank_tuples_descending[OF a l, of "[(High, High, High)]"] a l show ?thesis by blast
qed

text \<open>The same input, computed: the two patterns of ratio 1/2 have changed places.\<close>

lemma rank_tuples_example:
  "rank_tuples stable_argsort [(High, High, High)]
       [(Low, Low, Low), (Medium, Medium, Medium), (Low, High, Low)] [1 / 2, 2, 1 / 2] =
     Inr [(High, High, High), (Medium, Medium, Medium), (Low, High, Low), (Low, Low, Low)]"
  by code_simp

subsection \<open>The frequency tables\<close>

lemma sum_update_succ:
  "map_of al k = Some c \<Longrightarrow>
   sum_list (map snd (AList.update k (c + 1) al)) = sum_list (map snd al) + (1::nat)"
  by (induction al) auto

text \<open>The counting loop never fails, keeps the keys and adds one per row.\<close>

lemma count_rows_ok:
  assumes "set (map fst counts) = UNIV"
  shows "\<exists>counts'. count_rows jw cat rows counts = Inr counts' \<and>
           map fst counts' = map fst counts \<and>
           sum_list (map snd counts') = sum_list (map snd counts) + length rows"
  using assms
proof (induction rows arbitrary: counts)
  case Nil
  then show ?case by simp
next
  case (Cons r rows)
  let ?tup = "(cat (jw (rest_f r) (rest_z r)), cat (jw (city_f r) (city_z r)),
      cat (jw (address_f r) (address_z r)))"
  from Cons.prems have mem: "?tup \<in> set (map fst counts)" by simp
  then obtain c where c: "map_of counts ?tup = Some c"
    by (metis map_of_eq_None_iff not_Some_eq set_map)
  let ?counts = "AList.update ?tup (c + 1) counts"
  have keys: "map fst ?counts = map fst counts"
    using mem by (simp add: update_keys)
  then have "set (map fst ?counts) = UNIV" using Cons.prems by simp
  from Cons.IH[OF this] obtain counts' where
    "count_rows jw cat rows ?counts = Inr counts'"
    "map fst counts' = map fst ?counts"
    "sum_list (map snd counts') = sum_list (map snd ?counts) + length rows"
    by blast
  then show ?case
    using c keys sum_update_succ[OF c] by (simp add: getitem_def Let_def)
qed

lemma update_middle:
  "k \<notin> set (map fst xs) \<Longrightarrow> AList.update k v (xs @ (k, w) # ys) = xs @ (k, v) # ys"
  by (induction xs) auto

lemma normalise_step:
  "sum_list (map snd counts) \<noteq> 0 \<Longrightarrow>
   normalise counts ((t, c) # items) freqs =
     normalise counts items
       (AList.update t (fl (real c / real (sum_list (map snd counts)))) freqs)"
  by (simp only: normalise.simps Let_def if_False)

lemma normalise_eq:
  assumes "sum_list (map snd counts) \<noteq> 0" "distinct (map fst (pre @ items))"
  shows "normalise counts items
           (map (\<lambda>(t, c). (t, fl (real c / real (sum_list (map snd counts))))) pre @
            map (\<lambda>(t, c). (t, real c)) items) =
         Inr (map (\<lambda>(t, c). (t, fl (real c / real (sum_list (map snd counts)))))
                (pre @ items))"
  using assms(2)
proof (induction items arbitrary: pre)
  case Nil
  then show ?case by simp
next
  case (Cons a items)
  obtain t c where a: "a = (t, c)" by (cases a)
  define n where "n = real (sum_list (map snd counts))"
  let ?G = "\<lambda>(t, c). (t, fl (real c / n))"
  let ?F = "\<lambda>(t, c). (t, real c)"
  from Cons.prems a have nin: "t \<notin> set (map fst (map ?G pre))"
    by (auto simp: comp_def case_prod_unfold)
  from Cons.prems a have d: "distinct (map fst ((pre @ [(t, c)]) @ items))" by simp
  have "normalise counts (a # items) (map ?G pre @ map ?F (a # items)) =
      normalise counts ((t, c) # items) (map ?G pre @ (t, real c) # map ?F items)"
    by (simp add: a)
  also have "\<dots> =
      normalise counts items
        (AList.update t (fl (real c / n)) (map ?G pre @ (t, real c) # map ?F items))"
    unfolding n_def by (rule normalise_step[OF assms(1)])
  also have "\<dots> = normalise counts items (map ?G pre @ (t, fl (real c / n)) # map ?F items)"
    by (simp only: update_middle[OF nin])
  also have "\<dots> = normalise counts items (map ?G (pre @ [(t, c)]) @ map ?F items)"
    by simp
  also have "\<dots> = Inr (map ?G ((pre @ [(t, c)]) @ items))"
    unfolding n_def by (rule Cons.IH[OF d])
  finally show ?case unfolding n_def by (simp add: a)
qed

lemma sum_list_quotients:
  "sum_list (map (\<lambda>(t, c). real c / n) counts) = real (sum_list (map snd counts)) / n"
  by (induction counts) (auto simp: add_divide_distrib)

text \<open>
  On a sample that is not empty \<^verbatim>\<open>tuple_probs\<close> returns the counts divided by the
  number of rows, each quotient rounded to a float.
\<close>

lemma tuple_probs_eq:
  assumes "df \<noteq> []"
  shows "\<exists>counts. map fst counts = pattern_domain \<and> sum_list (map snd counts) = length df \<and>
           tuple_probs jw cat df =
             Inr (map (\<lambda>(t, c). (t, fl (real c / real (length df)))) counts)"
proof -
  have init: "set (map fst init_counts) = UNIV"
    using set_pattern_domain by (simp add: pattern_domain_def)
  have zero: "sum_list (map snd init_counts) = 0"
    by (simp add: init_counts_def categories_def)
  from count_rows_ok[OF init, of jw cat df] zero
  obtain counts where counts: "count_rows jw cat df init_counts = Inr counts"
    and keys: "map fst counts = pattern_domain"
    and total: "sum_list (map snd counts) = length df"
    by (auto simp: pattern_domain_def)
  from total assms have pos: "sum_list (map snd counts) \<noteq> 0" by simp
  have d: "distinct (map fst ([] @ counts))"
    using keys distinct_pattern_domain by simp
  have "tuple_probs jw cat df =
      Inr (map (\<lambda>(t, c). (t, fl (real c / real (sum_list (map snd counts))))) counts)"
    using normalise_eq[OF pos d] counts by (simp add: tuple_probs_def)
  with keys total show ?thesis by auto
qed

lemma full_table_normalised:
  "map fst counts = pattern_domain \<Longrightarrow> full_table (map (\<lambda>(t, c). (t, g c)) counts)"
  by (simp add: full_table_def comp_def case_prod_unfold distinct_pattern_domain)

text \<open>
  The rounded quotients sum to the sum of the exact quotients up to a relative error of
  \<open>1 / 2 ^ 53\<close>.
\<close>

lemma sum_list_rounded:
  assumes "0 \<le> n"
  shows "\<bar>sum_list (map (\<lambda>(t, c). fl (real c / n)) counts) -
          sum_list (map (\<lambda>(t, c). real c / n) counts)\<bar> \<le>
         sum_list (map (\<lambda>(t, c). real c / n) counts) / 2 ^ 53"
proof (induction counts)
  case Nil
  then show ?case by simp
next
  case (Cons a counts)
  obtain t c where a: "a = (t, c)" by (cases a)
  have q: "0 \<le> real c / n" using assms by simp
  have e: "\<bar>fl (real c / n) - real c / n\<bar> \<le> real c / n / 2 ^ 53"
    using fl_error[of "real c / n"] unfolding abs_of_nonneg[OF q] .
  define A where "A = sum_list (map (\<lambda>(t, c). fl (real c / n)) counts)"
  define B where "B = sum_list (map (\<lambda>(t, c). real c / n) counts)"
  define x where "x = fl (real c / n)"
  define y where "y = real c / n"
  have 1: "\<bar>x - y\<bar> \<le> y / 2 ^ 53" using e by (simp only: x_def y_def)
  have 2: "\<bar>A - B\<bar> \<le> B / 2 ^ 53" using Cons.IH by (simp only: A_def B_def)
  have "(y + B) / 2 ^ 53 = y / 2 ^ 53 + B / 2 ^ 53" by (rule add_divide_distrib)
  with 1 2 have "\<bar>(x + A) - (y + B)\<bar> \<le> (y + B) / 2 ^ 53" by linarith
  then show ?case by (simp only: a list.map prod.case sum_list.Cons A_def B_def x_def y_def)
qed

text \<open>
  Claim C4. For a sample that is not empty, \<^verbatim>\<open>tuple_probs\<close> returns a table with one
  entry for each pattern of the 27-pattern domain (in the order of the domain), every
  entry lies in [0, 1], and the entries sum to 1 within floating tolerance: each entry is
  a count divided by the number of rows and rounded to a float, the exact sum of the 27
  floats is within \<open>1 / 2 ^ 53\<close> of 1, and their sum accumulated in floating point, in
  the order of the table, is within \<open>29 / 2 ^ 53\<close> of 1; both are far below
  \<open>1 / 10 ^ 9\<close>.
\<close>

theorem tuple_probs_frequencies:
  assumes "df \<noteq> []"
  shows "\<exists>freqs. tuple_probs jaro_winkler get_jw_category df = Inr freqs \<and>
           map fst freqs = pattern_domain \<and> full_table freqs \<and>
           list_all (\<lambda>(t, p). 0 \<le> p \<and> p \<le> 1) freqs \<and>
           \<bar>sum_list (map snd freqs) - 1\<bar> \<le> 1 / 2 ^ 53 \<and>
           \<bar>float_sum (map snd freqs) - 1\<bar> \<le> 29 / 2 ^ 53 \<and>
           (29 :: real) / 2 ^ 53 \<le> 1 / 10 ^ 9"
proof -
  from tuple_probs_eq[OF assms, of jaro_winkler get_jw_category]
  obtain counts where keys: "map fst counts = pattern_domain"
    and total: "sum_list (map snd counts) = length df"
    and eq: "tuple_probs jaro_winkler get_jw_category df =
      Inr (map (\<lambda>(t, c). (t, fl (real c / real (length df)))) counts)"
    by blast
  define n where "n = real (length df)"
  let ?freqs = "map (\<lambda>(t, c). (t, fl (real c / n))) counts"
  have pos: "0 < n" using assms by (simp add: n_def)
  have k: "map fst ?freqs = pattern_domain"
    using keys by (simp add: comp_def case_prod_unfold)
  have f: "full_table ?freqs" by (rule full_table_normalised[OF keys])
  have entry: "0 \<le> fl (real c / n) \<and> fl (real c / n) \<le> 1" if "(t, c) \<in> set counts" for t c
  proof -
    have "c \<in> set (map snd counts)" using that by force
    then have "c \<le> sum_list (map snd counts)" by (rule member_le_sum_list) simp
    then have "real c \<le> n" using total by (simp add: n_def)
    with pos have "0 \<le> real c / n" "real c / n \<le> 1" by simp_all
    then show ?thesis by (simp add: fl_nonneg fl_le_one)
  qed
  then have r: "list_all (\<lambda>(t, p). 0 \<le> p \<and> p \<le> 1) ?freqs"
    by (auto simp: list_all_iff)
  have vals: "map snd ?freqs = map (\<lambda>(t, c). fl (real c / n)) counts"
    by (simp add: comp_def case_prod_unfold)
  have exact: "sum_list (map (\<lambda>(t, c). real c / n) counts) = 1"
    using pos total by (simp add: sum_list_quotients n_def)
  have s: "\<bar>sum_list (map snd ?freqs) - 1\<bar> \<le> 1 / 2 ^ 53"
    using sum_list_rounded[of n counts] pos unfolding vals exact by simp
  have len: "length (map snd ?freqs) = 27"
    using arg_cong[OF keys, of length] by (simp add: length_pattern_domain)
  have nn: "\<forall>x \<in> set (map snd ?freqs). 0 \<le> x"
    using entry by auto
  define S where "S = sum_list (map snd ?freqs)"
  have S1: "S \<le> 1 + 1 / 2 ^ 53" using s unfolding S_def by linarith
  have "\<bar>float_sum (map snd ?freqs) - S\<bar> \<le> ((1 + 1 / 2 ^ 53) ^ 27 - 1) * S"
    using foldl_fl_error[OF nn, of 0] unfolding float_sum_def S_def len by simp
  also have "\<dots> \<le> ((1 + 1 / 2 ^ 53) ^ 27 - 1) * (1 + 1 / 2 ^ 53)"
    using S1 by (rule mult_left_mono) simp
  finally have "\<bar>float_sum (map snd ?freqs) - S\<bar> \<le>
      ((1 + 1 / 2 ^ 53) ^ 27 - 1) * (1 + 1 / 2 ^ 53)" .
  moreover have "\<bar>S - 1\<bar> \<le> 1 / 2 ^ 53" using s by (simp add: S_def)
  moreover have "((1 + 1 / 2 ^ 53) ^ 27 - 1) * (1 + 1 / 2 ^ 53) + 1 / 2 ^ 53 \<le>
      (29 :: real) / 2 ^ 53"
    by (simp add: field_simps)
  ultimately have fs: "\<bar>float_sum (map snd ?freqs) - 1\<bar> \<le> 29 / 2 ^ 53" by linarith
  have tol: "(29 :: real) / 2 ^ 53 \<le> 1 / 10 ^ 9" by simp
  from eq k f r s fs tol show ?thesis unfolding n_def by blast
qed

theorem tuple_probs_frequencies_witness:
  "example_sample \<noteq> [] \<and>
   (\<exists>freqs. tuple_probs exact_similarity example_category example_sample = Inr freqs \<and>
      map fst freqs = pattern_domain \<and> full_table freqs \<and>
      list_all (\<lambda>(t, p). 0 \<le> p \<and> p \<le> 1) freqs \<and>
      \<bar>sum_list (map snd freqs) - 1\<bar> \<le> 1 / 2 ^ 53 \<and>
      \<bar>float_sum (map snd freqs) - 1\<bar> \<le> 29 / 2 ^ 53 \<and>
      (29 :: real) / 2 ^ 53 \<le> 1 / 10 ^ 9)"
proof -
  have n: "example_sample \<noteq> []" by (simp add: example_sample_def)
  from tuple_probs_frequencies[OF n, of exact_similarity example_category] n
  show ?thesis by blast
qed

text \<open>
  The table of the example sample, one row with the pattern (high, high, high) and two
  with (low, high, low): the entries are the floats next to 1/3 and 2/3, and their exact
  sum is not 1.
\<close>

lemma tuple_probs_example:
  "tuple_probs exact_similarity example_category example_sample =
     Inr (map (\<lambda>t. (t, if t = (High, High, High) then 6004799503160661 / 18014398509481984
                        else if t = (Low, High, Low) then 6004799503160661 / 9007199254740992
                        else 0))
            pattern_domain)"
  by (simp add: tuple_probs_def init_counts_def categories_def getitem_def example_sample_def
      exact_similarity_def example_category_def pattern_domain_eq Let_def
      fl_zero fl_third fl_two_thirds)

lemma tuple_probs_example_sum:
  "sum_list [6004799503160661 / 18014398509481984, 6004799503160661 / 9007199254740992 :: real] =
     1 - 1 / 2 ^ 54"
  by simp

text \<open>
  Claim C5 says that an empty sample makes \<^verbatim>\<open>tuple_probs\<close> fail with a
  ConfigurationError. The failure is the \<^verbatim>\<open>ZeroDivisionError\<close> of the first division.
\<close>

theorem empty_sample_counterexample:
  "tuple_probs exact_similarity example_category [] = Inl ZeroDivisionError \<and>
   tuple_probs exact_similarity example_category [] \<noteq> Inl ConfigurationError"
  by (simp add: tuple_probs_def init_counts_def categories_def)

text \<open>
  Claim C5, amended. Applied to an empty sample, \<^verbatim>\<open>tuple_probs\<close> fails with a
  \<^verbatim>\<open>ZeroDivisionError\<close>, whatever the similarity function and the categoriser.
\<close>

theorem tuple_probs_empty: "tuple_probs jaro_winkler get_jw_category [] = Inl ZeroDivisionError"
  by (simp add: tuple_probs_def init_counts_def categories_def)

subsection \<open>The classification loop\<close>

lemma extend_Nil: "extend jw cat sets [] out = out"
  by (cases out) (simp add: extend_def)

lemma extend_append:
  "extend jw cat sets (ps @ qs) out = extend jw cat sets qs (extend jw cat sets ps out)"
  by (simp add: extend_def)

lemma inner_loop_eq:
  "inner_loop jw cat sets row_z fs out = extend jw cat sets (map (Pair row_z) fs) out"
proof (induction fs arbitrary: out)
  case Nil
  then show ?case by (simp add: extend_Nil)
next
  case (Cons f fs)
  obtain P M U where sets: "sets = (P, M, U)" by (cases sets)
  have "extend jw cat sets (map (Pair row_z) (f # fs)) out =
      extend jw cat sets (map (Pair row_z) fs) (extend jw cat sets [(row_z, f)] out)"
    using extend_append[of jw cat sets "[(row_z, f)]" "map (Pair row_z) fs" out] by simp
  moreover have "inner_loop jw cat sets row_z (f # fs) out =
      inner_loop jw cat sets row_z fs (extend jw cat sets [(row_z, f)] out)"
    unfolding sets
    by (cases out) (simp add: extend_def labelled_def label_of_def pattern_of_def Let_def)
  ultimately show ?case using Cons.IH by simp
qed

lemma outer_loop_eq:
  "outer_loop jw cat sets block fodors zagat out =
     extend jw cat sets (candidates block zagat fodors) out"
proof (induction zagat arbitrary: out)
  case Nil
  then show ?case by (simp add: candidates_def extend_Nil)
next
  case (Cons z zagat)
  have "candidates block (z # zagat) fodors =
      map (Pair z) (if block then filter (\<lambda>row_f. city row_f = city z) fodors else fodors) @
      candidates block zagat fodors"
    by (simp add: candidates_def)
  then show ?case
    using Cons.IH by (simp add: inner_loop_eq extend_append Let_def)
qed

lemma zip_idx: "zip (map (\<lambda>p. idx (fst p)) ps) (map (\<lambda>p. idx (snd p)) ps) =
    map (\<lambda>p. (idx (fst p), idx (snd p))) ps"
  by (induction ps) auto

lemma pairs_extend_init:
  "match_pairs (extend jw cat sets ps out_init) =
     map (\<lambda>p. (idx (fst p), idx (snd p))) (filter (labelled jw cat sets Match) ps)"
  "unmatch_pairs (extend jw cat sets ps out_init) =
     map (\<lambda>p. (idx (fst p), idx (snd p))) (filter (labelled jw cat sets Unmatch) ps)"
  "poss_pairs (extend jw cat sets ps out_init) =
     map (\<lambda>p. (idx (fst p), idx (snd p))) (filter (labelled jw cat sets Possible) ps)"
  by (simp_all add: match_pairs_def unmatch_pairs_def poss_pairs_def extend_def out_init_def
      zip_idx)

lemma candidates_block:
  "candidates True zagat fodors =
     filter (\<lambda>p. city (snd p) = city (fst p)) (candidates False zagat fodors)"
  by (induction zagat) (simp_all add: candidates_def filter_map comp_def)

lemma set_candidates: "set (candidates False zagat fodors) = set zagat \<times> set fodors"
  by (auto simp: candidates_def)

lemma city_of_idx: "distinct (map idx df) \<Longrightarrow> r \<in> set df \<Longrightarrow> city_of df (idx r) = Some (city r)"
  unfolding city_of_def by (rule map_of_is_SomeI) (auto simp: comp_def)

lemma restrict_pairs:
  assumes "distinct (map idx zagat)" "distinct (map idx fodors)"
  shows "map (\<lambda>p. (idx (fst p), idx (snd p))) (filter L (candidates True zagat fodors)) =
         filter (same_city zagat fodors)
           (map (\<lambda>p. (idx (fst p), idx (snd p))) (filter L (candidates False zagat fodors)))"
proof -
  let ?C = "candidates False zagat fodors"
  have "filter ((same_city zagat fodors) \<circ> (\<lambda>p. (idx (fst p), idx (snd p)))) (filter L ?C) =
      filter (\<lambda>p. city (snd p) = city (fst p)) (filter L ?C)"
  proof (rule filter_cong[OF refl])
    fix p assume "p \<in> set (filter L ?C)"
    then have "fst p \<in> set zagat" "snd p \<in> set fodors"
      by (auto simp: set_candidates)
    then show "((same_city zagat fodors) \<circ> (\<lambda>p. (idx (fst p), idx (snd p)))) p =
        (city (snd p) = city (fst p))"
      using city_of_idx[OF assms(1)] city_of_idx[OF assms(2)]
      by (auto simp: same_city_def)
  qed
  also have "\<dots> = filter L (filter (\<lambda>p. city (snd p) = city (fst p)) ?C)"
    by (simp add: conj_commute)
  finally show ?thesis
    by (simp add: filter_map candidates_block)
qed

text \<open>
  Claim C9. When the index labels of each frame are distinct, the match, unmatch and
  possible index pairs found with blocking on the city are exactly those found without
  blocking whose two rows have equal cities, in the same order. A pair that blocking
  retains is compared and classified as it is without blocking.
\<close>

theorem blocking_equivalence:
  assumes "distinct (map idx zagat)" "distinct (map idx fodors)"
  shows "match_pairs (outer_loop jw cat sets True fodors zagat out_init) =
           filter (same_city zagat fodors)
             (match_pairs (outer_loop jw cat sets False fodors zagat out_init)) \<and>
         unmatch_pairs (outer_loop jw cat sets True fodors zagat out_init) =
           filter (same_city zagat fodors)
             (unmatch_pairs (outer_loop jw cat sets False fodors zagat out_init)) \<and>
         poss_pairs (outer_loop jw cat sets True fodors zagat out_init) =
           filter (same_city zagat fodors)
             (poss_pairs (outer_loop jw cat sets False fodors zagat out_init))"
  by (simp only: outer_loop_eq pairs_extend_init restrict_pairs[OF assms])

theorem blocking_equivalence_witness:
  "distinct (map idx example_zagat) \<and> distinct (map idx example_fodors) \<and>
   match_pairs (outer_loop exact_similarity example_category example_sets True
       example_fodors example_zagat out_init) =
     filter (same_city example_zagat example_fodors)
       (match_pairs (outer_loop exact_similarity example_category example_sets False
          example_fodors example_zagat out_init)) \<and>
   unmatch_pairs (outer_loop exact_similarity example_category example_sets True
       example_fodors example_zagat out_init) =
     filter (same_city example_zagat example_fodors)
       (unmatch_pairs (outer_loop exact_similarity example_category example_sets False
          example_fodors example_zagat out_init)) \<and>
   poss_pairs (outer_loop exact_similarity example_category example_sets True
       example_fodors example_zagat out_init) =
     filter (same_city example_zagat example_fodors)
       (poss_pairs (outer_loop exact_similarity example_category example_sets False
          example_fodors example_zagat out_init))"
proof -
  have z: "distinct (map idx example_zagat)"
    by (simp add: example_zagat_def example_row_def)
  have f: "distinct (map idx example_fodors)"
    by (simp add: example_fodors_def example_row_def)
  from blocking_equivalence[OF z f, of exact_similarity example_category example_sets] z f
  show ?thesis by blast
qed

text \<open>The two frames of the example, classified without and with blocking.\<close>

lemma blocking_example:
  "match_pairs (outer_loop exact_similarity example_category example_sets False
      example_fodors example_zagat out_init) = [(0, 0)] \<and>
   poss_pairs (outer_loop exact_similarity example_category example_sets False
      example_fodors example_zagat out_init) = [(0, 1)] \<and>
   unmatch_pairs (outer_loop exact_similarity example_category example_sets False
      example_fodors example_zagat out_init) = [(1, 0), (1, 1)] \<and>
   match_pairs (outer_loop exact_similarity example_category example_sets True
      example_fodors example_zagat out_init) = [(0, 0)] \<and>
   poss_pairs (outer_loop exact_similarity example_category example_sets True
      example_fodors example_zagat out_init) = [] \<and>
   unmatch_pairs (outer_loop exact_similarity example_category example_sets True
      example_fodors example_zagat out_init) = []"
  by code_simp

subsection \<open>\<^verbatim>\<open>find_matches\<close> from the training samples to the lists\<close>

lemma label_of_cover:
  "possible \<union> match \<union> unmatch = UNIV \<Longrightarrow> label_of (possible, match, unmatch) t \<noteq> None"
  by (auto simp: label_of_def)

text \<open>When every pattern has a label, the three lists of pairs share out the pairs.\<close>

lemma mset_labelled:
  assumes "\<forall>t. label_of sets t \<noteq> None"
  shows "mset (map g (filter (labelled jw cat sets Match) ps)) +
         mset (map g (filter (labelled jw cat sets Unmatch) ps)) +
         mset (map g (filter (labelled jw cat sets Possible) ps)) = mset (map g ps)"
proof (induction ps)
  case Nil
  then show ?case by simp
next
  case (Cons p ps)
  obtain row_z row_f where p: "p = (row_z, row_f)" by (cases p)
  from assms obtain l where l: "label_of sets (pattern_of jw cat row_z row_f) = Some l"
    by (metis not_None_eq)
  show ?case using Cons.IH l unfolding p by (cases l) (simp_all add: labelled_def)
qed

text \<open>
  With training samples that are not empty, \<^verbatim>\<open>find_matches\<close> raises nothing and
  classifies with the three sets that \<^verbatim>\<open>create_sets\<close> returns for the two
  frequency tables; these sets cover all patterns.
\<close>

lemma find_matches_eq:
  assumes "is_argsort argsort" "matches \<noteq> []" "unmatches \<noteq> []"
  shows "\<exists>freqs_m freqs_u possible match unmatch.
           tuple_probs jw cat matches = Inr freqs_m \<and>
           tuple_probs jw cat unmatches = Inr freqs_u \<and>
           create_sets argsort freqs_m freqs_u mu lmbda = Inr (possible, match, unmatch) \<and>
           possible \<union> match \<union> unmatch = UNIV \<and>
           find_matches jw cat argsort zagat fodors matches unmatches mu lmbda block =
             Inr (outer_loop jw cat (possible, match, unmatch) block fodors zagat out_init)"
proof -
  from tuple_probs_eq[OF assms(2), of jw cat]
  obtain cm where km: "map fst cm = pattern_domain"
    and m: "tuple_probs jw cat matches =
      Inr (map (\<lambda>(t, c). (t, fl (real c / real (length matches)))) cm)"
    by blast
  from tuple_probs_eq[OF assms(3), of jw cat]
  obtain cu where ku: "map fst cu = pattern_domain"
    and u: "tuple_probs jw cat unmatches =
      Inr (map (\<lambda>(t, c). (t, fl (real c / real (length unmatches)))) cu)"
    by blast
  let ?fm = "map (\<lambda>(t, c). (t, fl (real c / real (length matches)))) cm"
  let ?fu = "map (\<lambda>(t, c). (t, fl (real c / real (length unmatches)))) cu"
  have fm: "full_table ?fm" by (rule full_table_normalised[OF km])
  have fu: "full_table ?fu" by (rule full_table_normalised[OF ku])
  from fm fu have sub: "set (map fst ?fu) \<subseteq> set (map fst ?fm)"
    and d: "distinct (map fst ?fu)" and dom: "set (map fst ?fu) = UNIV"
    by (simp_all only: full_table_def set_pattern_domain subset_UNIV)
  from create_sets_partition_keys[OF assms(1) d sub, of mu lmbda] dom
  obtain possible match unmatch where
    c: "create_sets argsort ?fm ?fu mu lmbda = Inr (possible, match, unmatch)"
    and cov: "possible \<union> match \<union> unmatch = UNIV"
    by auto
  have "find_matches jw cat argsort zagat fodors matches unmatches mu lmbda block =
      Inr (outer_loop jw cat (possible, match, unmatch) block fodors zagat out_init)"
    by (simp add: find_matches_def m u c)
  with m u c cov show ?thesis by blast
qed

text \<open>
  Claim C7. The classification loop runs inside \<^verbatim>\<open>find_matches\<close>, on the three sets
  that \<^verbatim>\<open>create_sets\<close> has just returned. Whenever the loop is reached (the two
  training samples are not empty), the comparison pattern of every pair of rows is in one
  of the three sets, so the case of a pattern found in none of them does not arise; and
  no pair is dropped: the index pairs of the pairs that the loops visit are shared out
  among the match, unmatch and possible lists, each visited pair in exactly one list.
\<close>

theorem find_matches_never_drops:
  assumes "is_argsort argsort" "matches \<noteq> []" "unmatches \<noteq> []"
  shows "\<exists>freqs_m freqs_u possible match unmatch out.
           tuple_probs jw cat matches = Inr freqs_m \<and>
           tuple_probs jw cat unmatches = Inr freqs_u \<and>
           create_sets argsort freqs_m freqs_u mu lmbda = Inr (possible, match, unmatch) \<and>
           find_matches jw cat argsort zagat fodors matches unmatches mu lmbda block = Inr out \<and>
           out = outer_loop jw cat (possible, match, unmatch) block fodors zagat out_init \<and>
           (\<forall>row_z row_f. pattern_of jw cat row_z row_f \<in> possible \<union> match \<union> unmatch) \<and>
           mset (match_pairs out) + mset (unmatch_pairs out) + mset (poss_pairs out) =
             mset (map (\<lambda>p. (idx (fst p), idx (snd p))) (candidates block zagat fodors))"
proof -
  from find_matches_eq[OF assms, of jw cat mu lmbda zagat fodors block]
  obtain freqs_m freqs_u possible match unmatch where
    m: "tuple_probs jw cat matches = Inr freqs_m"
    and u: "tuple_probs jw cat unmatches = Inr freqs_u"
    and c: "create_sets argsort freqs_m freqs_u mu lmbda = Inr (possible, match, unmatch)"
    and cov: "possible \<union> match \<union> unmatch = UNIV"
    and f: "find_matches jw cat argsort zagat fodors matches unmatches mu lmbda block =
      Inr (outer_loop jw cat (possible, match, unmatch) block fodors zagat out_init)"
    by blast
  let ?out = "outer_loop jw cat (possible, match, unmatch) block fodors zagat out_init"
  have lab: "\<forall>t. label_of (possible, match, unmatch) t \<noteq> None"
    using label_of_cover[OF cov] by blast
  have all: "\<forall>row_z row_f. pattern_of jw cat row_z row_f \<in> possible \<union> match \<union> unmatch"
    using cov by simp
  have "mset (match_pairs ?out) + mset (unmatch_pairs ?out) + mset (poss_pairs ?out) =
      mset (map (\<lambda>p. (idx (fst p), idx (snd p))) (candidates block zagat fodors))"
    unfolding outer_loop_eq pairs_extend_init by (rule mset_labelled[OF lab])
  with m u c f all show ?thesis by blast
qed

theorem find_matches_never_drops_witness:
  "is_argsort stable_argsort \<and> example_sample \<noteq> [] \<and>
   (\<exists>freqs_m freqs_u possible match unmatch out.
      tuple_probs exact_similarity example_category example_sample = Inr freqs_m \<and>
      tuple_probs exact_similarity example_category example_sample = Inr freqs_u \<and>
      create_sets stable_argsort freqs_m freqs_u (1 / 2) (1 / 2) =
        Inr (possible, match, unmatch) \<and>
      find_matches exact_similarity example_category stable_argsort example_zagat
        example_fodors example_sample example_sample (1 / 2) (1 / 2) False = Inr out \<and>
      out = outer_loop exact_similarity example_category (possible, match, unmatch) False
        example_fodors example_zagat out_init \<and>
      (\<forall>row_z row_f. pattern_of exact_similarity example_category row_z row_f \<in>
         possible \<union> match \<union> unmatch) \<and>
      mset (match_pairs out) + mset (unmatch_pairs out) + mset (poss_pairs out) =
        mset (map (\<lambda>p. (idx (fst p), idx (snd p)))
          (candidates False example_zagat example_fodors)))"
proof -
  have a: "is_argsort stable_argsort" by (rule stable_argsort_ok)
  have n: "example_sample \<noteq> []" by (simp add: example_sample_def)
  from find_matches_never_drops[OF a n n, of exact_similarity example_category "1 / 2" "1 / 2"
      example_zagat example_fodors False] a n
  show ?thesis by blast
qed

text \<open>The pairs that the loops visit in the example: all four without blocking.\<close>

lemma candidates_example:
  "map (\<lambda>p. (idx (fst p), idx (snd p))) (candidates False example_zagat example_fodors) =
     [(0, 0), (0, 1), (1, 0), (1, 1)]"
  by (simp add: candidates_def example_zagat_def example_fodors_def example_row_def)

end
